theory Spec2Isabelle
  imports Complex_Main
begin

section \<open>JavaScript values, strings and objects\<close>

text \<open>
  The library is TypeScript. A JavaScript string is a sequence of code units; here it is a
  \<open>string\<close> (a list of 8-bit characters), which covers the code units 0 to 255. A cell has
  the type \<open>any\<close>; the values here are the primitive ones, \<open>null\<close>, \<open>undefined\<close>, numbers, strings
  and booleans. A number is a finite value, NaN or one of the
  two infinities; finite values are carried as rationals (every double is one). The two
  conversions between numbers and text, \<open>Number(s)\<close> and \<open>String(n)\<close>, belong to the language
  and round in binary floating point: they are parameters of the functions that call them
  (\<open>toNumber\<close> and \<open>numToString\<close>) and are never computed here.
\<close>

datatype jsnum = Fin rat | NaN | PosInf | NegInf

datatype jsval = Null | Undefined | Num jsnum | Str string | Bool bool

abbreviation DQUOTE :: char where "DQUOTE \<equiv> CHR 0x22"
abbreviation LF :: char where "LF \<equiv> CHR 0x0A"
abbreviation CR :: char where "CR \<equiv> CHR 0x0D"

text \<open>\<open>typeof value === 'number'\<close> and \<open>Number.isNaN(value)\<close>.\<close>

fun typeofNumber :: "jsval \<Rightarrow> bool" where
  "typeofNumber (Num n) = True"
| "typeofNumber v = False"

fun typeofString :: "jsval \<Rightarrow> bool" where
  "typeofString (Str s) = True"
| "typeofString v = False"

definition Number_isNaN :: "jsval \<Rightarrow> bool" where
  "Number_isNaN v = (v = Num NaN)"

text \<open>\<open>!Number.isNaN(n) && isFinite(n)\<close> on a number.\<close>

fun isFiniteNumber :: "jsnum \<Rightarrow> bool" where
  "isFiniteNumber (Fin q) = True"
| "isFiniteNumber n = False"

text \<open>\<open>String(value)\<close>; the text of a finite number is the parameter \<open>numToString\<close>.\<close>

fun String_of :: "(rat \<Rightarrow> string) \<Rightarrow> jsval \<Rightarrow> string" where
  "String_of numToString Null = ''null''"
| "String_of numToString Undefined = ''undefined''"
| "String_of numToString (Num (Fin q)) = numToString q"
| "String_of numToString (Num NaN) = ''NaN''"
| "String_of numToString (Num PosInf) = ''Infinity''"
| "String_of numToString (Num NegInf) = ''-Infinity''"
| "String_of numToString (Str s) = s"
| "String_of numToString (Bool b) = (if b then ''true'' else ''false'')"

text \<open>
  \<open>String.prototype.trim\<close> removes white space and line terminators from both ends. Among the
  code units 0 to 255 these are TAB, LF, VT, FF, CR, SPACE and NO-BREAK SPACE.
\<close>

definition isWhiteSpace :: "char \<Rightarrow> bool" where
  "isWhiteSpace c = (c \<in> set [CHR 0x09, CHR 0x0A, CHR 0x0B, CHR 0x0C, CHR 0x0D, CHR 0x20, CHR 0xA0])"

definition trim :: "string \<Rightarrow> string" where
  "trim s = rev (dropWhile isWhiteSpace (rev (dropWhile isWhiteSpace s)))"

text \<open>\<open>Array.prototype.join\<close> on an array of strings.\<close>

fun join :: "string \<Rightarrow> string list \<Rightarrow> string" where
  "join sep [] = []"
| "join sep [x] = x"
| "join sep (x # y # ys) = x @ sep @ join sep (y # ys)"

text \<open>The decimal text of a natural number, as the template literal \<open>`column${index + 1}`\<close> prints it.\<close>

fun natToString :: "nat \<Rightarrow> string" where
  "natToString n =
     (if n < 10 then [char_of (48 + n)]
      else natToString (n div 10) @ [char_of (48 + n mod 10)])"

definition isDigit :: "char \<Rightarrow> bool" where
  "isDigit c = (c \<in> set ''0123456789'')"

definition decimalValue :: "string \<Rightarrow> nat" where
  "decimalValue s = foldl (\<lambda>n c. 10 * n + (of_char c - 48)) 0 s"

text \<open>
  A row is an ordinary JavaScript object, modelled by its own enumerable properties in the
  order \<open>Object.keys\<close> lists them: the keys that are array indices (canonical decimal numerals
  below \<open>2^32 - 1\<close>) first, in ascending numeric order, then every other key in the order of
  its creation. \<open>obj_get\<close> is the read \<open>row[k]\<close> (\<open>undefined\<close> for a missing property) and
  \<open>obj_set\<close> the assignment \<open>row[k] = v\<close>. The prototype chain is outside this model: the
  members an object inherits from \<open>Object.prototype\<close> (\<open>objectPrototypeNames\<close>) are read
  instead of \<open>undefined\<close> when the object has no own property of that name, and an assignment
  to \<open>__proto__\<close> reaches the inherited setter. Statements that depend on such a read or write
  exclude these names.
\<close>

type_synonym jsobject = "(string \<times> jsval) list"

definition objectPrototypeNames :: "string list" where
  "objectPrototypeNames =
     [''constructor'', ''__defineGetter__'', ''__defineSetter__'', ''hasOwnProperty'',
      ''__lookupGetter__'', ''__lookupSetter__'', ''isPrototypeOf'', ''propertyIsEnumerable'',
      ''toString'', ''valueOf'', ''__proto__'', ''toLocaleString'']"

definition isArrayIndex :: "string \<Rightarrow> bool" where
  "isArrayIndex k =
     (k \<noteq> [] \<and> list_all isDigit k \<and> (k = ''0'' \<or> hd k \<noteq> CHR ''0'') \<and> decimalValue k < 2 ^ 32 - 1)"

fun insertIndex :: "string \<Rightarrow> jsval \<Rightarrow> jsobject \<Rightarrow> jsobject" where
  "insertIndex k v [] = [(k, v)]"
| "insertIndex k v ((k', v') # ps) =
     (if isArrayIndex k' \<and> decimalValue k' < decimalValue k then (k', v') # insertIndex k v ps
      else (k, v) # (k', v') # ps)"

definition Object_keys :: "jsobject \<Rightarrow> string list" where
  "Object_keys obj = map fst obj"

definition obj_get :: "jsobject \<Rightarrow> string \<Rightarrow> jsval" where
  "obj_get obj k = (case map_of obj k of None \<Rightarrow> Undefined | Some v \<Rightarrow> v)"

definition obj_set :: "jsobject \<Rightarrow> string \<Rightarrow> jsval \<Rightarrow> jsobject" where
  "obj_set obj k v =
     (if k \<in> set (Object_keys obj) then map (\<lambda>p. if fst p = k then (k, v) else p) obj
      else if isArrayIndex k then insertIndex k v obj
      else obj @ [(k, v)])"

text \<open>The representation invariant of an object: distinct keys in \<open>Object.keys\<close> order.\<close>

fun keyOrdered :: "string list \<Rightarrow> bool" where
  "keyOrdered [] = True"
| "keyOrdered [k] = True"
| "keyOrdered (k # k' # ks) =
     ((if isArrayIndex k' then isArrayIndex k \<and> decimalValue k < decimalValue k' else True)
      \<and> keyOrdered (k' # ks))"

definition wfObject :: "jsobject \<Rightarrow> bool" where
  "wfObject obj = (distinct (Object_keys obj) \<and> keyOrdered (Object_keys obj))"

text \<open>A read \<open>row[k]\<close> that this model covers: of an own property, or of a name the object does not inherit.\<close>

definition modelledRead :: "jsobject \<Rightarrow> string \<Rightarrow> bool" where
  "modelledRead row k = (k \<in> set (Object_keys row) \<or> k \<notin> set objectPrototypeNames)"

section \<open>The DataFrame class (core/DataFrame.ts)\<close>

text \<open>
  The errors the library throws, named as the specification names them:
  \<open>Column "c" does not exist\<close> is \<open>UnknownColumn c\<close>, \<open>At least one column must be selected\<close> is
  \<open>InvalidSelection\<close>, \<open>DataFrame data must be an array of objects\<close> is \<open>InvalidConstruction\<close>.
\<close>

datatype error = UnknownColumn string | InvalidSelection | InvalidConstruction

record DataFrame =
  data :: "jsobject list"
  columns :: "string list"

text \<open>
  The constructor. Its argument has the type \<open>readonly T[]\<close> with \<open>T extends Record<string, any>\<close>,
  so every element is an object and the guard \<open>!firstRow || typeof firstRow !== 'object'\<close> does
  not fire on a well-typed argument.
\<close>

definition DataFrame_new :: "jsobject list \<Rightarrow> DataFrame" where
  "DataFrame_new rows =
     (case rows of
        [] \<Rightarrow> \<lparr>data = [], columns = []\<rparr>
      | firstRow # _ \<Rightarrow> \<lparr>data = rows, columns = Object_keys firstRow\<rparr>)"

definition df_length :: "DataFrame \<Rightarrow> nat" where
  "df_length df = length (data df)"

definition width :: "DataFrame \<Rightarrow> nat" where
  "width df = length (columns df)"

definition getColumnNames :: "DataFrame \<Rightarrow> string list" where
  "getColumnNames df = columns df"

definition getRows :: "DataFrame \<Rightarrow> jsobject list" where
  "getRows df = data df"

text \<open>\<open>getColumn\<close> maps the rows to \<open>row[columnName]\<close>; it has no check and no \<open>throw\<close>.\<close>

definition getColumn :: "DataFrame \<Rightarrow> string \<Rightarrow> error + jsval list" where
  "getColumn df columnName = Inr (map (\<lambda>row. obj_get row columnName) (data df))"

text \<open>The first column of \<open>columnNames\<close> that the frame does not have, as the checking loop of \<open>select\<close> finds it.\<close>

fun firstMissing :: "string list \<Rightarrow> string list \<Rightarrow> string option" where
  "firstMissing cols [] = None"
| "firstMissing cols (col # rest) = (if col \<notin> set cols then Some col else firstMissing cols rest)"

definition selectRow :: "string list \<Rightarrow> jsobject \<Rightarrow> jsobject" where
  "selectRow columnNames row = foldl (\<lambda>selectedRow col. obj_set selectedRow col (obj_get row col)) [] columnNames"

definition select :: "DataFrame \<Rightarrow> string list \<Rightarrow> error + DataFrame" where
  "select df columnNames =
     (if length columnNames = 0 then Inl InvalidSelection
      else case firstMissing (columns df) columnNames of
        Some col \<Rightarrow> Inl (UnknownColumn col)
      | None \<Rightarrow> Inr (DataFrame_new (map (selectRow columnNames) (data df))))"

section \<open>Column type checks (columns/types.ts)\<close>

fun isNumericLoop :: "string \<Rightarrow> jsobject list \<Rightarrow> bool" where
  "isNumericLoop columnName [] = True"
| "isNumericLoop columnName (row # rest) =
     (let v = obj_get row columnName in
      if v = Null \<or> v = Undefined then isNumericLoop columnName rest
      else if \<not> typeofNumber v \<or> Number_isNaN v then False
      else isNumericLoop columnName rest)"

definition isNumeric :: "DataFrame \<Rightarrow> string \<Rightarrow> error + bool" where
  "isNumeric df columnName =
     (if columnName \<notin> set (getColumnNames df) then Inl (UnknownColumn columnName)
      else if length (getRows df) = 0 then Inr False
      else Inr (isNumericLoop columnName (getRows df)))"

fun isStringLoop :: "string \<Rightarrow> jsobject list \<Rightarrow> bool" where
  "isStringLoop columnName [] = True"
| "isStringLoop columnName (row # rest) =
     (let v = obj_get row columnName in
      if v = Null \<or> v = Undefined then isStringLoop columnName rest
      else if \<not> typeofString v then False
      else isStringLoop columnName rest)"

definition isString :: "DataFrame \<Rightarrow> string \<Rightarrow> error + bool" where
  "isString df columnName =
     (if columnName \<notin> set (getColumnNames df) then Inl (UnknownColumn columnName)
      else if length (getRows df) = 0 then Inr False
      else Inr (isStringLoop columnName (getRows df)))"

datatype columnType = TypeNumber | TypeString | TypeMixed | TypeEmpty

definition getColumnType :: "DataFrame \<Rightarrow> string \<Rightarrow> error + columnType" where
  "getColumnType df columnName =
     (if columnName \<notin> set (getColumnNames df) then Inl (UnknownColumn columnName)
      else if length (getRows df) = 0 then Inr TypeEmpty
      else case isNumeric df columnName of
        Inl e \<Rightarrow> Inl e
      | Inr hasNumber \<Rightarrow>
          (case isString df columnName of
             Inl e \<Rightarrow> Inl e
           | Inr hasString \<Rightarrow>
               Inr (if hasNumber \<and> \<not> hasString then TypeNumber
                    else if hasString \<and> \<not> hasNumber then TypeString
                    else TypeMixed)))"

section \<open>The CSV codec (io/csv.ts)\<close>

record CSVExportOptions =
  exportDelimiter :: "string option"
  includeHeaders :: "bool option"

record CSVImportOptions =
  importDelimiter :: "string option"
  hasHeaders :: "bool option"
  skipEmptyLines :: "bool option"

text \<open>\<open>options?.field ?? fallback\<close>.\<close>

definition optionOr :: "'o option \<Rightarrow> ('o \<Rightarrow> 'a option) \<Rightarrow> 'a \<Rightarrow> 'a" where
  "optionOr options field fallback =
     (case options of
        None \<Rightarrow> fallback
      | Some opts \<Rightarrow> (case field opts of None \<Rightarrow> fallback | Some x \<Rightarrow> x))"

text \<open>\<open>strValue.replace(/"/g, '""')\<close>.\<close>

definition doubleQuotes :: "string \<Rightarrow> string" where
  "doubleQuotes s = concat (map (\<lambda>c. if c = DQUOTE then [DQUOTE, DQUOTE] else [c]) s)"

text \<open>
  \<open>escapeCSVValue(value, isNumeric)\<close>. The function has no delimiter parameter: the
  character it tests for is the comma.
\<close>

definition escapeCSVValue :: "(rat \<Rightarrow> string) \<Rightarrow> jsval \<Rightarrow> bool \<Rightarrow> string" where
  "escapeCSVValue numToString v isNum =
     (if isNum then String_of numToString v
      else let strValue = String_of numToString v in
        if CHR '','' \<in> set strValue \<or> DQUOTE \<in> set strValue \<or> LF \<in> set strValue \<or> CR \<in> set strValue
        then [DQUOTE] @ doubleQuotes strValue @ [DQUOTE]
        else strValue)"

text \<open>
  \<open>parseCSVRows\<close>: the \<open>while\<close> loop over the index \<open>i\<close>, as a recursion on the rest of the
  text from \<open>i\<close> on. \<open>nextChar\<close> is the character after the current one, if any.
\<close>

definition nextChar :: "string \<Rightarrow> char option" where
  "nextChar rest = (case rest of [] \<Rightarrow> None | n # _ \<Rightarrow> Some n)"

function parseLoop :: "string \<Rightarrow> string list list \<Rightarrow> string list \<Rightarrow> string \<Rightarrow> bool \<Rightarrow> string \<Rightarrow> string list list" where
  "parseLoop delimiter rows currentRow current inQuotes [] =
     (if length (currentRow @ [current]) > 0 \<or> current \<noteq> [] then rows @ [currentRow @ [current]]
      else rows)"
| "parseLoop delimiter rows currentRow current inQuotes (c # rest) =
     (if c = DQUOTE then
        (if inQuotes \<and> nextChar rest = Some DQUOTE
           then parseLoop delimiter rows currentRow (current @ [DQUOTE]) inQuotes (drop 1 rest)
         else if inQuotes
           then parseLoop delimiter rows currentRow current False rest
         else parseLoop delimiter rows currentRow current True rest)
      else if [c] = delimiter \<and> \<not> inQuotes
        then parseLoop delimiter rows (currentRow @ [current]) [] inQuotes rest
      else if (c = LF \<or> (c = CR \<and> nextChar rest \<noteq> Some LF)) \<and> \<not> inQuotes
        then parseLoop delimiter (rows @ [currentRow @ [current]]) [] [] inQuotes
               (if c = CR \<and> nextChar rest = Some LF then drop 1 rest else rest)
      else parseLoop delimiter rows currentRow (current @ [c]) inQuotes rest)"
  by pat_completeness auto
termination
  by (relation "measure (\<lambda>(delimiter, rows, currentRow, current, inQuotes, s). length s)") auto

definition parseCSVRows :: "string \<Rightarrow> string \<Rightarrow> string list list" where
  "parseCSVRows csvString delimiter = parseLoop delimiter [] [] [] False csvString"

text \<open>\<open>toCSV\<close>: the text of one cell, of one row, and of the table.\<close>

definition cellText :: "(rat \<Rightarrow> string) \<Rightarrow> jsobject \<Rightarrow> string \<Rightarrow> string" where
  "cellText numToString row col =
     (let v = obj_get row col in
      if v = Null \<or> v = Undefined then []
      else escapeCSVValue numToString v (typeofNumber v \<and> \<not> Number_isNaN v))"

definition headerLine :: "(rat \<Rightarrow> string) \<Rightarrow> string \<Rightarrow> string list \<Rightarrow> string" where
  "headerLine numToString delimiter cols =
     join delimiter (map (\<lambda>col. escapeCSVValue numToString (Str col) True) cols)"

definition toCSV :: "(rat \<Rightarrow> string) \<Rightarrow> DataFrame \<Rightarrow> CSVExportOptions option \<Rightarrow> string" where
  "toCSV numToString df options =
     (let delimiter = optionOr options exportDelimiter '','';
          withHeaders = optionOr options includeHeaders True;
          rows = getRows df;
          cols = getColumnNames df
      in if length rows = 0
         then (if length cols > 0 \<and> withHeaders then headerLine numToString delimiter cols else [])
         else join ''\<newline>''
                ((if withHeaders then [headerLine numToString delimiter cols] else [])
                 @ map (\<lambda>row. join delimiter (map (cellText numToString row) cols)) rows))"

text \<open>
  The two regular expressions of \<open>fromCSV\<close>, as character scans.
  \<open>numberPattern\<close> is \<open>/^-?\d+(\.\d+)?(e[+-]?\d+)?$/i\<close> and \<open>hasLeadingZeros\<close> is
  \<open>/^-?0+[1-9]/\<close>. Each part of either expression can match in one way only, so the scan
  takes the optional parts whenever they are there.
\<close>

definition dropMinus :: "string \<Rightarrow> string" where
  "dropMinus s = (case s of [] \<Rightarrow> [] | c # r \<Rightarrow> if c = CHR ''-'' then r else s)"

definition dropSign :: "string \<Rightarrow> string" where
  "dropSign s = (case s of [] \<Rightarrow> [] | c # r \<Rightarrow> if c = CHR ''+'' \<or> c = CHR ''-'' then r else s)"

definition dropFraction :: "string \<Rightarrow> string" where
  "dropFraction s =
     (case s of
        [] \<Rightarrow> []
      | c # r \<Rightarrow> if c = CHR ''.'' \<and> takeWhile isDigit r \<noteq> [] then dropWhile isDigit r else s)"

definition exponentOrEnd :: "string \<Rightarrow> bool" where
  "exponentOrEnd s =
     (case s of
        [] \<Rightarrow> True
      | c # r \<Rightarrow> (c = CHR ''e'' \<or> c = CHR ''E'') \<and> dropSign r \<noteq> [] \<and> list_all isDigit (dropSign r))"

definition numberPattern :: "string \<Rightarrow> bool" where
  "numberPattern s =
     (takeWhile isDigit (dropMinus s) \<noteq> []
      \<and> exponentOrEnd (dropFraction (dropWhile isDigit (dropMinus s))))"

definition hasLeadingZeros :: "string \<Rightarrow> bool" where
  "hasLeadingZeros s =
     (takeWhile (\<lambda>c. c = CHR ''0'') (dropMinus s) \<noteq> []
      \<and> (case dropWhile (\<lambda>c. c = CHR ''0'') (dropMinus s) of
            [] \<Rightarrow> False
          | c # r \<Rightarrow> c \<in> set ''123456789''))"

text \<open>The type inference of one field (the body of the inner loop of \<open>fromCSV\<close>).\<close>

definition inferValue :: "(string \<Rightarrow> jsnum) \<Rightarrow> string \<Rightarrow> jsval" where
  "inferValue toNumber field =
     (let trimmedValue = trim field in
      if trimmedValue = [] \<or> trimmedValue = ''null'' \<or> trimmedValue = ''NULL'' then Null
      else if numberPattern trimmedValue \<and> \<not> hasLeadingZeros trimmedValue then
        (let numValue = toNumber trimmedValue in
         if isFiniteNumber numValue then Num numValue else Str field)
      else Str field)"

text \<open>One data row: the padding loop, then the loop over the column indices.\<close>

definition padValues :: "nat \<Rightarrow> string list \<Rightarrow> string list" where
  "padValues n rowValues = rowValues @ replicate (n - length rowValues) []"

definition fieldAt :: "string list \<Rightarrow> nat \<Rightarrow> string" where
  "fieldAt vs j = (if j < length vs then vs ! j else [])"

definition buildRow :: "(string \<Rightarrow> jsnum) \<Rightarrow> string list \<Rightarrow> string list \<Rightarrow> jsobject" where
  "buildRow toNumber columnNames rowValues =
     (let vs = padValues (length columnNames) rowValues in
      foldl (\<lambda>row j. obj_set row (columnNames ! j) (inferValue toNumber (fieldAt vs j)))
        [] [0..<length columnNames])"

definition emptyRow :: "string list \<Rightarrow> jsobject" where
  "emptyRow columnNames = foldl (\<lambda>row col. obj_set row col Null) [] columnNames"

text \<open>\<open>row.some((cell) => cell.trim() !== '')\<close>, the test of the filter for empty lines.\<close>

definition nonEmptyRow :: "string list \<Rightarrow> bool" where
  "nonEmptyRow row = list_ex (\<lambda>cell. trim cell \<noteq> []) row"

definition fromCSV :: "(string \<Rightarrow> jsnum) \<Rightarrow> string \<Rightarrow> CSVImportOptions option \<Rightarrow> DataFrame" where
  "fromCSV toNumber csvString options =
     (let delimiter = optionOr options importDelimiter '','';
          headers = optionOr options hasHeaders True;
          skipEmpty = optionOr options skipEmptyLines True
      in if csvString = [] \<or> trim csvString = [] then DataFrame_new []
         else
           let rows = parseCSVRows csvString delimiter;
               filteredRows =
                 (if skipEmpty then filter nonEmptyRow rows else rows)
           in if length filteredRows = 0 then DataFrame_new []
              else
                let columnNames =
                      (if headers then hd filteredRows
                       else map (\<lambda>index. ''column'' @ natToString (index + 1))
                              [0..<length (hd filteredRows)]);
                    dataStartIndex = (if headers then 1 else 0 :: nat)
                in if length columnNames = 0 then DataFrame_new []
                   else
                     let rowObjects = map (buildRow toNumber columnNames) (drop dataStartIndex filteredRows)
                     in if length rowObjects = 0 \<and> length columnNames > 0
                        then DataFrame_new [emptyRow columnNames]
                        else DataFrame_new rowObjects)"

text \<open>
  The frames a program can hold: built by the constructor, by \<open>select\<close> on such a frame, or
  by \<open>fromCSV\<close>.
\<close>

inductive reachable :: "DataFrame \<Rightarrow> bool" where
  constructed: "reachable (DataFrame_new rows)"
| selected: "reachable df \<Longrightarrow> select df columnNames = Inr df' \<Longrightarrow> reachable df'"
| parsed: "reachable (fromCSV toNumber csvString options)"

section \<open>The conversions of the language between numbers and text\<close>

text \<open>
  \<open>String(n)\<close> on a number and \<open>Number(s)\<close> on a string are the language's own (ECMAScript,
  \<open>Number::toString\<close> with radix 10 and \<open>StringToNumber\<close>); \<open>toCSV\<close> calls the first on every
  number cell and \<open>fromCSV\<close> the second on every field that matches its numeral pattern. A
  Number is an IEEE 754 double: a finite one is zero or \<open>m * 2^e\<close>, with either sign, for a
  natural \<open>m < 2^53\<close> and \<open>-1074 \<le> e \<le> 971\<close>. The two zeros are one value here.

  \<open>floorLog b n\<close> is the integer logarithm of a natural number, \<open>ilog b a\<close> that of a positive
  rational: \<open>b^(ilog b a) \<le> a < b^(ilog b a + 1)\<close>.
\<close>

function floorLog :: "nat \<Rightarrow> nat \<Rightarrow> nat" where
  "floorLog b n = (if b < 2 \<or> n < b then 0 else Suc (floorLog b (n div b)))"
  by pat_completeness auto
termination
  by (relation "measure snd") auto

definition ilog :: "nat \<Rightarrow> rat \<Rightarrow> int" where
  "ilog b a =
     (let (p, d) = quotient_of a;
          l = int (floorLog b (nat p)) - int (floorLog b (nat d))
      in if power_int (of_nat b) l \<le> a then l else l - 1)"

definition isInteger :: "rat \<Rightarrow> bool" where
  "isInteger r = (of_int \<lfloor>r\<rfloor> = r)"

text \<open>
  The doubles around a positive \<open>a\<close> are the multiples of \<open>2^e\<close>, where \<open>e\<close> is the exponent of
  the last place of \<open>a\<close>: 52 places below its leading bit, and \<open>-1074\<close> at least (the subnormal
  range). \<open>isDouble q\<close>: the rational \<open>q\<close> is a finite double. \<open>roundToDouble q\<close>: the Number for
  the real \<open>q\<close>, the nearest double with ties to the even one, and an infinity from \<open>2^1024\<close> on.
\<close>

definition roundHalfEven :: "rat \<Rightarrow> int" where
  "roundHalfEven r =
     (let f = \<lfloor>r\<rfloor>; t = r - of_int f
      in if t < 1 / 2 then f else if 1 / 2 < t then f + 1 else if even f then f else f + 1)"

definition ulpExponent :: "rat \<Rightarrow> int" where
  "ulpExponent a = max (ilog 2 a - 52) (- 1074)"

definition isDouble :: "rat \<Rightarrow> bool" where
  "isDouble q = (q = 0 \<or> (\<bar>q\<bar> < 2 ^ 1024 \<and> isInteger (\<bar>q\<bar> / power_int 2 (ulpExponent \<bar>q\<bar>))))"

definition roundToDouble :: "rat \<Rightarrow> jsnum" where
  "roundToDouble q =
     (if q = 0 then Fin 0
      else let a = \<bar>q\<bar>;
               e = ulpExponent a;
               r = of_int (roundHalfEven (a / power_int 2 e)) * power_int 2 e
           in if 2 ^ 1024 \<le> r then (if q < 0 then NegInf else PosInf)
              else Fin (if q < 0 then - r else r))"

text \<open>\<open>roundValue a\<close>: the rounded magnitude in \<open>roundToDouble\<close>, for a positive \<open>a\<close>.\<close>

definition roundValue :: "rat \<Rightarrow> rat" where
  "roundValue a = of_int (roundHalfEven (a / power_int 2 (ulpExponent a))) * power_int 2 (ulpExponent a)"

text \<open>
  \<open>Number::toString(x)\<close> for a positive \<open>x\<close> takes integers \<open>n\<close>, \<open>k\<close> and \<open>s\<close> such that \<open>k \<ge> 1\<close>,
  \<open>10^(k-1) \<le> s < 10^k\<close>, the Number for \<open>s * 10^(n-k)\<close> is \<open>x\<close>, and \<open>k\<close> is as small as
  possible (\<open>denotes x (s, n, k)\<close> is the condition on the three). The search tries
  \<open>k = 1, 2, ...\<close> in turn. For one \<open>k\<close> it tests the two decimals of \<open>k\<close> digits next to \<open>x\<close>, below
  and above (rounding is monotone, so no other decimal of \<open>k\<close> digits can give \<open>x\<close> when these
  two do not: lemma \<open>candidates_complete\<close>), and of two that give \<open>x\<close> it takes the nearer, the
  choice the language leaves to the implementation. A double has a finite decimal expansion
  (\<open>exactDigits\<close>), where the search ends at the latest.
\<close>

type_synonym digits = "nat \<times> int \<times> nat"

definition digitsValue :: "digits \<Rightarrow> rat" where
  "digitsValue t = (case t of (s, n, k) \<Rightarrow> of_nat s * power_int 10 (n - int k))"

definition denotes :: "rat \<Rightarrow> digits \<Rightarrow> bool" where
  "denotes x t =
     (case t of (s, n, k) \<Rightarrow>
        1 \<le> k \<and> 10 ^ (k - 1) \<le> s \<and> s < 10 ^ k \<and> roundToDouble (digitsValue t) = Fin x)"

definition candidates :: "rat \<Rightarrow> nat \<Rightarrow> digits list" where
  "candidates x k =
     (let n = ilog 10 x + 1;
          r = x / power_int 10 (n - int k);
          lo = nat \<lfloor>r\<rfloor>;
          hi = nat \<lceil>r\<rceil>
      in (lo, n, k) # (if hi = lo then [] else if hi = 10 ^ k then [(10 ^ (k - 1), n + 1, k)] else [(hi, n, k)]))"

fun closest :: "rat \<Rightarrow> digits \<Rightarrow> digits list \<Rightarrow> digits" where
  "closest x t [] = t"
| "closest x t (u # us) =
     closest x
       (if \<bar>digitsValue u - x\<bar> < \<bar>digitsValue t - x\<bar>
           \<or> (\<bar>digitsValue u - x\<bar> = \<bar>digitsValue t - x\<bar> \<and> even (fst u))
        then u else t) us"

definition exactDigits :: "rat \<Rightarrow> digits" where
  "exactDigits x =
     (case find (\<lambda>j. isInteger (x * 10 ^ j)) [0..<1075] of
        None \<Rightarrow> (0, 0, 0)
      | Some j \<Rightarrow>
          (let s = nat \<lfloor>x * 10 ^ j\<rfloor>; k = length (natToString s) in (s, int k - int j, k)))"

fun shortest :: "nat \<Rightarrow> rat \<Rightarrow> nat \<Rightarrow> digits" where
  "shortest 0 x k = exactDigits x"
| "shortest (Suc fuel) x k =
     (case filter (denotes x) (candidates x k) of
        [] \<Rightarrow> shortest fuel x (Suc k)
      | t # ts \<Rightarrow> closest x t ts)"

definition shortestDigits :: "rat \<Rightarrow> digits" where
  "shortestDigits x = (case exactDigits x of (s, n, k) \<Rightarrow> shortest (k - 1) x 1)"

text \<open>
  The text of the digits: without an exponent when \<open>-6 < n \<le> 21\<close> (the digits and zeros up to
  the point; digits, point, digits; or \<open>0.\<close>, zeros and the digits), and otherwise one digit,
  the other digits after a point if there are any, and \<open>e\<close> with the signed exponent \<open>n - 1\<close>.
\<close>

definition formatDigits :: "digits \<Rightarrow> string" where
  "formatDigits t =
     (case t of (s, n, k) \<Rightarrow>
        let ds = natToString s in
        if int k \<le> n \<and> n \<le> 21 then ds @ replicate (nat (n - int k)) (CHR ''0'')
        else if 0 < n \<and> n \<le> 21 then take (nat n) ds @ ''.'' @ drop (nat n) ds
        else if - 6 < n \<and> n \<le> 0 then ''0.'' @ replicate (nat (- n)) (CHR ''0'') @ ds
        else let e = n - 1;
                 es = (if e < 0 then ''-'' else ''+'') @ natToString (nat \<bar>e\<bar>)
             in if k = 1 then ds @ ''e'' @ es
                else take 1 ds @ ''.'' @ drop 1 ds @ ''e'' @ es)"

definition Number_toString :: "rat \<Rightarrow> string" where
  "Number_toString q =
     (if q = 0 then ''0''
      else if q < 0 then ''-'' @ formatDigits (shortestDigits (- q))
      else formatDigits (shortestDigits q))"

text \<open>
  \<open>Number(s)\<close> on a text that matches the numeral pattern of \<open>fromCSV\<close>, which is a decimal literal
  of the language: the mathematical value of the literal (sign, integer digits, fraction digits,
  exponent), rounded to a double. \<open>fromCSV\<close> calls \<open>Number\<close> on no other text, and the result for
  other texts (a hexadecimal literal, \<open>Infinity\<close>, the empty text) is not modelled: it is NaN here.
\<close>

definition fractionDigits :: "string \<Rightarrow> string" where
  "fractionDigits s =
     (case s of [] \<Rightarrow> [] | c # r \<Rightarrow> if c = CHR ''.'' then takeWhile isDigit r else [])"

definition exponentValue :: "string \<Rightarrow> int" where
  "exponentValue s =
     (case s of
        [] \<Rightarrow> 0
      | c # r \<Rightarrow>
          (case r of
             [] \<Rightarrow> 0
           | g # ds \<Rightarrow> if g = CHR ''-'' then - int (decimalValue ds)
                        else if g = CHR ''+'' then int (decimalValue ds)
                        else int (decimalValue r)))"

definition numeralValue :: "string \<Rightarrow> rat" where
  "numeralValue s =
     (let body = dropMinus s;
          intDigits = takeWhile isDigit body;
          afterInt = dropWhile isDigit body;
          fracDigits = fractionDigits afterInt;
          m = (of_nat (decimalValue intDigits) + of_nat (decimalValue fracDigits) / 10 ^ length fracDigits)
                * power_int 10 (exponentValue (dropFraction afterInt))
      in if body = s then m else - m)"

definition StringToNumber :: "string \<Rightarrow> jsnum" where
  "StringToNumber s = (if numberPattern s then roundToDouble (numeralValue s) else NaN)"

section \<open>Predicates of the CSV round trip\<close>

text \<open>
  The characters the tokenizer gives a meaning to when the delimiter is the comma, and a text
  without any of them.
\<close>

definition specialChar :: "char \<Rightarrow> bool" where
  "specialChar c = (c = CHR '','' \<or> c = DQUOTE \<or> c = LF \<or> c = CR)"

definition plainText :: "string \<Rightarrow> bool" where
  "plainText s = (\<not> list_ex specialChar s)"

text \<open>
  \<open>fieldText e f\<close>: the text \<open>e\<close> is a way to write the raw field \<open>f\<close>, either as it is (when it
  is plain) or between quotes with its quotes doubled. \<open>fieldEnd\<close>: what may follow a field.
\<close>

definition fieldText :: "string \<Rightarrow> string \<Rightarrow> bool" where
  "fieldText e f = ((plainText f \<and> e = f) \<or> e = [DQUOTE] @ doubleQuotes f @ [DQUOTE])"

definition fieldEnd :: "string \<Rightarrow> bool" where
  "fieldEnd rest = (rest = [] \<or> hd rest = CHR '','' \<or> hd rest = LF)"


text \<open>
  The cells that survive a round trip. A string is kept as a string by the type inference
  when its trimmed text is not empty, is not \<open>null\<close> or \<open>NULL\<close>, and is not a numeral (without a
  leading zero) that \<open>Number\<close> reads as a finite number. A finite number reads back when its
  text is plain, is such a numeral, and \<open>Number\<close> gives the number back for it
  (\<open>roundTripCell\<close>, for any pair of conversions). A cell of a table of the claim is \<open>null\<close>, a
  finite number, that is a double, or a string that is kept under the \<open>Number\<close> of the language
  (\<open>tableCell\<close>). A plain name is a plain text other than \<open>__proto__\<close>. \<open>rawField\<close> is the
  field of a cell before it is escaped.
\<close>

definition keptAsString :: "(string \<Rightarrow> jsnum) \<Rightarrow> string \<Rightarrow> bool" where
  "keptAsString toNumber s =
     (trim s \<noteq> [] \<and> trim s \<noteq> ''null'' \<and> trim s \<noteq> ''NULL''
      \<and> \<not> (numberPattern (trim s) \<and> \<not> hasLeadingZeros (trim s) \<and> isFiniteNumber (toNumber (trim s))))"

definition readsBackAs :: "(string \<Rightarrow> jsnum) \<Rightarrow> (rat \<Rightarrow> string) \<Rightarrow> rat \<Rightarrow> bool" where
  "readsBackAs toNumber numToString q =
     (plainText (numToString q) \<and> numberPattern (trim (numToString q))
      \<and> \<not> hasLeadingZeros (trim (numToString q)) \<and> toNumber (trim (numToString q)) = Fin q)"

fun roundTripCell :: "(string \<Rightarrow> jsnum) \<Rightarrow> (rat \<Rightarrow> string) \<Rightarrow> jsval \<Rightarrow> bool" where
  "roundTripCell toNumber numToString Null = True"
| "roundTripCell toNumber numToString (Num (Fin q)) = readsBackAs toNumber numToString q"
| "roundTripCell toNumber numToString (Str s) = keptAsString toNumber s"
| "roundTripCell toNumber numToString v = False"

fun tableCell :: "jsval \<Rightarrow> bool" where
  "tableCell Null = True"
| "tableCell (Num (Fin q)) = isDouble q"
| "tableCell (Str s) = keptAsString StringToNumber s"
| "tableCell v = False"

definition plainName :: "string \<Rightarrow> bool" where
  "plainName c = (plainText c \<and> c \<noteq> ''__proto__'')"

definition rawField :: "(rat \<Rightarrow> string) \<Rightarrow> jsval \<Rightarrow> string" where
  "rawField numToString v = (if v = Null \<or> v = Undefined then [] else String_of numToString v)"

text \<open>
  The shape of the texts that \<open>Number_toString\<close> writes: an optional minus sign, integer
  digits, an optional point with fraction digits, and an optional exponent as \<open>formatDigits\<close>
  writes it. \<open>numeralParts str ip fp ex v\<close>: the text \<open>str\<close> has this shape without a sign, its
  integer part is a single zero or starts with another digit, and \<open>v\<close> is its value.
\<close>

definition exponentText :: "int option \<Rightarrow> string" where
  "exponentText ex =
     (case ex of
        None \<Rightarrow> []
      | Some e \<Rightarrow> ''e'' @ (if e < 0 then ''-'' else ''+'') @ natToString (nat \<bar>e\<bar>))"

definition numeralText :: "bool \<Rightarrow> string \<Rightarrow> string \<Rightarrow> int option \<Rightarrow> string" where
  "numeralText neg ip fp ex =
     (if neg then ''-'' else []) @ ip @ (if fp = [] then [] else ''.'' @ fp) @ exponentText ex"

definition numeralChar :: "char \<Rightarrow> bool" where
  "numeralChar c = (isDigit c \<or> c = CHR ''-'' \<or> c = CHR ''.'' \<or> c = CHR ''e'' \<or> c = CHR ''+'')"

definition numeralParts :: "string \<Rightarrow> string \<Rightarrow> string \<Rightarrow> int option \<Rightarrow> rat \<Rightarrow> bool" where
  "numeralParts str ip fp ex v =
     (str = numeralText False ip fp ex \<and> ip \<noteq> [] \<and> list_all isDigit ip \<and> list_all isDigit fp
      \<and> (hd ip \<noteq> CHR ''0'' \<or> ip = ''0'')
      \<and> (of_nat (decimalValue ip) + of_nat (decimalValue fp) / 10 ^ length fp)
            * power_int 10 (case ex of None \<Rightarrow> 0 | Some e \<Rightarrow> e) = v)"

section \<open>Properties of objects\<close>

lemma map_of_insertIndex:
  "k \<notin> set (map fst obj) \<Longrightarrow> map_of (insertIndex k v obj) = (map_of obj)(k \<mapsto> v)"
  by (induction k v obj rule: insertIndex.induct) (auto simp: fun_upd_twist)

lemma keys_insertIndex: "set (map fst (insertIndex k v obj)) = insert k (set (map fst obj))"
  by (induction k v obj rule: insertIndex.induct) (simp_all add: insert_commute)

lemma map_of_replace:
  "map_of (map (\<lambda>p. if fst p = k then (k, v) else p) obj) x =
     (if x = k then (if k \<in> set (map fst obj) then Some v else None) else map_of obj x)"
proof (induction obj)
  case Nil
  then show ?case by simp
next
  case (Cons p obj)
  have "(k', v') \<in> set obj \<Longrightarrow> k' \<in> fst ` set obj" for k' v'
    by force
  with Cons show ?case by (cases p) auto
qed

lemma keys_replace: "map fst (map (\<lambda>p. if fst p = k then (k, v) else p) obj) = map fst obj"
  by (induction obj) auto

lemma map_of_append_new:
  "k \<notin> set (map fst obj) \<Longrightarrow> map_of (obj @ [(k, v)]) x = (if x = k then Some v else map_of obj x)"
  by (induction obj) auto

lemma map_of_obj_set: "map_of (obj_set obj k v) x = (if x = k then Some v else map_of obj x)"
  by (simp add: obj_set_def Object_keys_def map_of_replace map_of_insertIndex map_of_append_new
      del: map_of_append)

lemma obj_get_obj_set: "obj_get (obj_set obj k v) k' = (if k' = k then v else obj_get obj k')"
  by (simp add: obj_get_def map_of_obj_set)

lemma keys_obj_set: "set (Object_keys (obj_set obj k v)) = insert k (set (Object_keys obj))"
proof (cases "k \<in> set (map fst obj)")
  case True
  then have "insert k (set (map fst obj)) = set (map fst obj)" by auto
  with True show ?thesis
    by (simp only: obj_set_def Object_keys_def keys_replace if_True)
next
  case False
  then show ?thesis
    by (simp add: obj_set_def Object_keys_def keys_insertIndex del: set_map)
qed

lemma obj_get_tabulate: "c \<in> set cs \<Longrightarrow> obj_get (map (\<lambda>c. (c, h c)) cs) c = h c"
proof -
  assume "c \<in> set cs"
  then have "map_of (map (\<lambda>c. (c, h c)) cs) c = Some (h c)"
    by (induction cs) auto
  then show ?thesis by (simp add: obj_get_def)
qed

lemma tabulate_own:
  "distinct (map fst obj) \<Longrightarrow> map (\<lambda>c. (c, obj_get obj c)) (map fst obj) = obj"
proof (induction obj)
  case Nil
  then show ?case by simp
next
  case (Cons p obj)
  then have "\<And>q. q \<in> set obj \<Longrightarrow> obj_get (p # obj) (fst q) = obj_get obj (fst q)"
    by (cases p) (auto simp: obj_get_def)
  then have "map (\<lambda>c. (c, obj_get (p # obj) c)) (map fst obj) = map (\<lambda>c. (c, obj_get obj c)) (map fst obj)"
    by simp
  with Cons show ?case by (cases p) (simp add: obj_get_def)
qed

lemma keyOrdered_first:
  "keyOrdered (k # ks) \<Longrightarrow> x \<in> set ks \<Longrightarrow> isArrayIndex x \<Longrightarrow>
     isArrayIndex k \<and> decimalValue k < decimalValue x"
proof (induction ks arbitrary: k)
  case Nil
  then show ?case by simp
next
  case (Cons k' ks)
  show ?case
  proof (cases "x = k'")
    case True
    with Cons.prems show ?thesis by simp
  next
    case False
    with Cons.prems have "x \<in> set ks" and "keyOrdered (k' # ks)" by simp_all
    with Cons.IH Cons.prems(3) have k': "isArrayIndex k' \<and> decimalValue k' < decimalValue x" by blast
    with Cons.prems(1) show ?thesis by auto
  qed
qed

lemma keyOrdered_tail: "keyOrdered (k # ks) \<Longrightarrow> keyOrdered ks"
  by (cases ks) simp_all

lemma keyOrdered_last:
  "keyOrdered (ks @ [k]) \<Longrightarrow> isArrayIndex k \<Longrightarrow> x \<in> set ks \<Longrightarrow>
     isArrayIndex x \<and> decimalValue x < decimalValue k"
proof (induction ks)
  case Nil
  then show ?case by simp
next
  case (Cons a ks)
  show ?case
  proof (cases "x = a")
    case True
    with Cons.prems show ?thesis using keyOrdered_first [of a "ks @ [k]" k] by simp
  next
    case False
    with Cons.prems have "x \<in> set ks" and "keyOrdered (ks @ [k])"
      using keyOrdered_tail [of a "ks @ [k]"] by simp_all
    with Cons.IH Cons.prems(2) show ?thesis by blast
  qed
qed

lemma keyOrdered_butlast: "keyOrdered (ks @ [k]) \<Longrightarrow> keyOrdered ks"
proof (induction ks rule: keyOrdered.induct)
  case 1
  then show ?case by simp
next
  case (2 a)
  then show ?case by simp
next
  case (3 a b ks)
  then show ?case by simp
qed

lemma insertIndex_last:
  "(\<And>p. p \<in> set obj \<Longrightarrow> isArrayIndex (fst p) \<and> decimalValue (fst p) < decimalValue k) \<Longrightarrow>
     insertIndex k v obj = obj @ [(k, v)]"
proof (induction obj)
  case Nil
  then show ?case by simp
next
  case (Cons p obj)
  then have "isArrayIndex (fst p) \<and> decimalValue (fst p) < decimalValue k" by simp
  moreover from Cons have "insertIndex k v obj = obj @ [(k, v)]" by simp
  ultimately show ?case by (cases p) simp
qed

lemma obj_set_last:
  assumes "distinct (map fst obj @ [k])" and "keyOrdered (map fst obj @ [k])"
  shows "obj_set obj k v = obj @ [(k, v)]"
proof -
  from assms(1) have new: "k \<notin> set (Object_keys obj)" by (simp add: Object_keys_def)
  show ?thesis
  proof (cases "isArrayIndex k")
    case True
    have "insertIndex k v obj = obj @ [(k, v)]"
    proof (rule insertIndex_last)
      fix p assume "p \<in> set obj"
      then have "fst p \<in> set (map fst obj)" by simp
      with assms(2) True show "isArrayIndex (fst p) \<and> decimalValue (fst p) < decimalValue k"
        by (rule keyOrdered_last)
    qed
    with new True show ?thesis by (simp add: obj_set_def)
  next
    case False
    with new show ?thesis by (simp add: obj_set_def)
  qed
qed

lemma foldl_obj_set_ordered:
  "distinct (map fst ps) \<Longrightarrow> keyOrdered (map fst ps) \<Longrightarrow>
     foldl (\<lambda>row p. obj_set row (fst p) (snd p)) [] ps = ps"
proof (induction ps rule: rev_induct)
  case Nil
  then show ?case by simp
next
  case (snoc p ps)
  then have d: "distinct (map fst ps @ [fst p])" and o: "keyOrdered (map fst ps @ [fst p])" by simp_all
  from d have "distinct (map fst ps)" by simp
  moreover from o have "keyOrdered (map fst ps)" by (rule keyOrdered_butlast)
  ultimately have ih: "foldl (\<lambda>row p. obj_set row (fst p) (snd p)) [] ps = ps" by (rule snoc.IH)
  have "foldl (\<lambda>row p. obj_set row (fst p) (snd p)) [] (ps @ [p])
      = obj_set (foldl (\<lambda>row p. obj_set row (fst p) (snd p)) [] ps) (fst p) (snd p)"
    by (simp only: foldl_append foldl.simps)
  also have "\<dots> = obj_set ps (fst p) (snd p)" by (simp only: ih)
  also have "\<dots> = ps @ [(fst p, snd p)]" by (rule obj_set_last [OF d o])
  also have "\<dots> = ps @ [p]" by (simp only: prod.collapse)
  finally show ?case .
qed

lemma foldl_null_keys:
  "set (Object_keys (foldl (\<lambda>row col. obj_set row col Null) obj cs)) = set (Object_keys obj) \<union> set cs"
  by (induction cs arbitrary: obj) (simp_all add: keys_obj_set)

lemma foldl_null_get:
  "c \<in> set cs \<Longrightarrow> obj_get (foldl (\<lambda>row col. obj_set row col Null) obj cs) c = Null"
proof (induction cs arbitrary: obj rule: rev_induct)
  case Nil
  then show ?case by simp
next
  case (snoc x xs)
  then show ?case by (cases "c = x") (simp_all add: obj_get_obj_set)
qed

lemma emptyRow_keys: "set (Object_keys (emptyRow header)) = set header"
  by (simp add: emptyRow_def foldl_null_keys) (simp add: Object_keys_def)

lemma emptyRow_get: "c \<in> set header \<Longrightarrow> obj_get (emptyRow header) c = Null"
  by (simp add: emptyRow_def foldl_null_get)

lemma emptyRow_ordered:
  assumes "distinct cs" and "keyOrdered cs"
  shows "emptyRow cs = map (\<lambda>c. (c, Null)) cs"
proof -
  have "emptyRow cs = foldl (\<lambda>row p. obj_set row (fst p) (snd p)) [] (map (\<lambda>c. (c, Null)) cs)"
    by (simp add: emptyRow_def foldl_map)
  also have "\<dots> = map (\<lambda>c. (c, Null)) cs"
    using assms by (intro foldl_obj_set_ordered) (simp_all add: comp_def)
  finally show ?thesis .
qed

section \<open>Properties of frames and of the reader\<close>

lemma data_DataFrame_new: "data (DataFrame_new rows) = rows"
  by (cases rows) (simp_all add: DataFrame_new_def)

lemma columns_DataFrame_new: "rows \<noteq> [] \<Longrightarrow> columns (DataFrame_new rows) = Object_keys (hd rows)"
  by (cases rows) (simp_all add: DataFrame_new_def)

lemma DataFrame_new_invariant: "data (DataFrame_new rows) = [] \<Longrightarrow> columns (DataFrame_new rows) = []"
  by (cases rows) (simp_all add: DataFrame_new_def)

lemma getColumn_values: "getColumn df c = Inr (map (\<lambda>row. obj_get row c) (data df))"
  by (simp add: getColumn_def)

lemma firstMissing_finds:
  "\<not> set columnNames \<subseteq> set cols \<Longrightarrow> \<exists>c. firstMissing cols columnNames = Some c"
  by (induction columnNames) auto

lemma select_unknown_column:
  assumes "columnNames \<noteq> []" and "\<not> set columnNames \<subseteq> set (columns df)"
  shows "\<exists>c. select df columnNames = Inl (UnknownColumn c)"
proof -
  from assms(2) obtain c where "firstMissing (columns df) columnNames = Some c"
    using firstMissing_finds by blast
  with assms(1) show ?thesis by (simp add: select_def)
qed

lemma select_invariant:
  assumes "select df columnNames = Inr df'" and "data df' = []"
  shows "columns df' = []"
proof -
  from assms(1) obtain rows where "df' = DataFrame_new rows"
    by (auto simp: select_def split: if_splits option.splits)
  with assms(2) show ?thesis by (simp add: DataFrame_new_invariant)
qed

lemma fromCSV_constructed: "\<exists>rows. fromCSV toNumber csvString options = DataFrame_new rows"
  by (auto simp: fromCSV_def Let_def)

lemma fromCSV_invariant:
  "data (fromCSV toNumber csvString options) = [] \<Longrightarrow> columns (fromCSV toNumber csvString options) = []"
  using fromCSV_constructed [of toNumber csvString options] by (auto simp: DataFrame_new_invariant)

lemma parseLoop_end: "parseLoop d rows cr cur q [] = rows @ [cr @ [cur]]"
  by simp

lemma parseLoop_rows_nonempty:
  "list_all (\<lambda>r. r \<noteq> []) rows \<Longrightarrow> list_all (\<lambda>r. r \<noteq> []) (parseLoop d rows cr cur q s)"
  by (induction d rows cr cur q s rule: parseLoop.induct) auto

lemma parseCSVRows_rows_nonempty: "r \<in> set (parseCSVRows s d) \<Longrightarrow> r \<noteq> []"
  using parseLoop_rows_nonempty [of "[]" d "[]" "[]" False s]
  by (simp add: parseCSVRows_def list_all_iff)

lemma trim_eq_Nil: "(trim s = []) = (\<forall>c \<in> set s. isWhiteSpace c)"
proof
  assume "trim s = []"
  then have all: "\<forall>c \<in> set (dropWhile isWhiteSpace s). isWhiteSpace c"
    by (simp add: trim_def dropWhile_eq_Nil_conv)
  have "dropWhile isWhiteSpace s = []"
  proof (rule ccontr)
    assume ne: "dropWhile isWhiteSpace s \<noteq> []"
    then have "\<not> isWhiteSpace (hd (dropWhile isWhiteSpace s))" by (rule hd_dropWhile)
    moreover from ne have "hd (dropWhile isWhiteSpace s) \<in> set (dropWhile isWhiteSpace s)" by simp
    ultimately show False using all by blast
  qed
  then show "\<forall>c \<in> set s. isWhiteSpace c" by (simp add: dropWhile_eq_Nil_conv)
next
  assume "\<forall>c \<in> set s. isWhiteSpace c"
  then have d: "dropWhile isWhiteSpace s = []" by (simp add: dropWhile_eq_Nil_conv)
  show "trim s = []" unfolding trim_def d by simp
qed

lemma fromCSV_empty_text: "fromCSV toNumber [] options = DataFrame_new []"
  by (simp add: fromCSV_def Let_def)

lemma fromCSV_headers_only:
  assumes "trim csvString \<noteq> []"
    and "filter nonEmptyRow (parseCSVRows csvString '','') = [header]"
  shows "fromCSV toNumber csvString None = DataFrame_new [emptyRow header]"
proof -
  have "header \<in> set (parseCSVRows csvString '','')"
  proof -
    have "header \<in> set (filter nonEmptyRow (parseCSVRows csvString '',''))"
      by (simp add: assms(2))
    then show ?thesis by simp
  qed
  then have "header \<noteq> []" by (rule parseCSVRows_rows_nonempty)
  moreover from assms(1) have "csvString \<noteq> []" by (auto simp: trim_def)
  ultimately show ?thesis using assms
    by (simp add: fromCSV_def optionOr_def Let_def)
qed

lemma fromCSV_default_rows:
  assumes "trim csv \<noteq> []"
    and "filter nonEmptyRow (parseCSVRows csv '','') = header # drows"
    and "drows \<noteq> []"
  shows "fromCSV toNumber csv None = DataFrame_new (map (buildRow toNumber header) drows)"
proof -
  have "header \<in> set (filter nonEmptyRow (parseCSVRows csv '',''))"
    by (simp add: assms(2))
  then have "header \<in> set (parseCSVRows csv '','')" by simp
  then have "header \<noteq> []" by (rule parseCSVRows_rows_nonempty)
  moreover from assms(1) have "csv \<noteq> []" by (auto simp: trim_def)
  ultimately show ?thesis using assms
    by (simp add: fromCSV_def optionOr_def Let_def)
qed

section \<open>Rows built by the reader\<close>

lemma fold_get_distinct:
  "distinct cs \<Longrightarrow> n \<le> length cs \<Longrightarrow> j < n \<Longrightarrow>
     obj_get (foldl (\<lambda>row j. obj_set row (cs ! j) (f j)) [] [0..<n]) (cs ! j) = f j"
proof (induction n)
  case 0
  then show ?case by simp
next
  case (Suc n)
  show ?case
  proof (cases "j = n")
    case True
    then show ?thesis by (simp add: obj_get_obj_set)
  next
    case False
    with Suc.prems have "j < n" and "cs ! j \<noteq> cs ! n"
      by (auto simp: nth_eq_iff_index_eq)
    with Suc show ?thesis by (simp add: obj_get_obj_set)
  qed
qed

lemma fold_get_null:
  "(\<And>i. m \<le> i \<Longrightarrow> i < n \<Longrightarrow> f i = Null) \<Longrightarrow> m \<le> j \<Longrightarrow> j < n \<Longrightarrow>
     obj_get (foldl (\<lambda>row j. obj_set row (cs ! j) (f j)) [] [0..<n]) (cs ! j) = Null"
proof (induction n)
  case 0
  then show ?case by simp
next
  case (Suc n)
  show ?case
  proof (cases "cs ! j = cs ! n")
    case True
    with Suc.prems show ?thesis by (simp add: obj_get_obj_set)
  next
    case False
    then have "j \<noteq> n" by auto
    with Suc.prems have "j < n" by simp
    with Suc False show ?thesis by (simp add: obj_get_obj_set)
  qed
qed

lemma fold_keys:
  "n \<le> length cs \<Longrightarrow>
     set (Object_keys (foldl (\<lambda>row j. obj_set row (cs ! j) (f j)) [] [0..<n])) = set (take n cs)"
proof (induction n)
  case 0
  then show ?case by (simp add: Object_keys_def)
next
  case (Suc n)
  then show ?case by (simp add: keys_obj_set take_Suc_conv_app_nth)
qed

lemma fieldAt_padValues:
  "j < n \<Longrightarrow> fieldAt (padValues n vs) j = (if j < length vs then vs ! j else [])"
  by (simp add: fieldAt_def padValues_def nth_append)

lemma inferValue_empty: "inferValue toNumber [] = Null"
  by (simp add: inferValue_def trim_def)

lemma inferValue_blank: "trim s = [] \<Longrightarrow> inferValue toNumber s = Null"
  by (simp add: inferValue_def)

lemma buildRow_keys: "set (Object_keys (buildRow toNumber header rowValues)) = set header"
  by (simp add: buildRow_def fold_keys)

lemma buildRow_missing_null:
  assumes "length rowValues \<le> j" and "j < length header"
  shows "obj_get (buildRow toNumber header rowValues) (header ! j) = Null"
  unfolding buildRow_def Let_def
  by (rule fold_get_null [OF _ assms]) (simp add: fieldAt_padValues inferValue_empty)

lemma buildRow_get:
  assumes "distinct header" and "j < length header"
  shows "obj_get (buildRow toNumber header rowValues) (header ! j) = inferValue toNumber (fieldAt rowValues j)"
proof -
  have "fieldAt (padValues (length header) rowValues) j = fieldAt rowValues j"
    using assms(2) by (simp add: fieldAt_padValues) (simp add: fieldAt_def)
  then show ?thesis
    unfolding buildRow_def Let_def using assms by (simp add: fold_get_distinct)
qed

lemma buildRow_take: "buildRow toNumber header rowValues = buildRow toNumber header (take (length header) rowValues)"
  unfolding buildRow_def Let_def
  by (rule foldl_cong) (simp_all add: fieldAt_padValues)

lemma map_upt_nth: "map (\<lambda>j. h (cs ! j)) [0..<length cs] = map h cs"
  by (rule nth_equalityI) simp_all

lemma buildRow_ordered:
  assumes "distinct cs" and "keyOrdered cs"
  shows "buildRow toNumber cs (map g cs) = map (\<lambda>c. (c, inferValue toNumber (g c))) cs"
proof -
  let ?ps = "map (\<lambda>c. (c, inferValue toNumber (g c))) cs"
  have "buildRow toNumber cs (map g cs)
      = foldl (\<lambda>row j. obj_set row (cs ! j) (inferValue toNumber (g (cs ! j)))) [] [0..<length cs]"
    unfolding buildRow_def Let_def
    by (rule foldl_cong) (simp_all add: fieldAt_padValues)
  also have "\<dots> = foldl (\<lambda>row p. obj_set row (fst p) (snd p)) [] (map (\<lambda>j. (cs ! j, inferValue toNumber (g (cs ! j)))) [0..<length cs])"
    by (simp add: foldl_map)
  also have "map (\<lambda>j. (cs ! j, inferValue toNumber (g (cs ! j)))) [0..<length cs] = ?ps"
    by (rule map_upt_nth)
  also have "foldl (\<lambda>row p. obj_set row (fst p) (snd p)) [] ?ps = ?ps"
    using assms by (intro foldl_obj_set_ordered) (simp_all add: comp_def)
  finally show ?thesis .
qed

section \<open>Column type checks on a column without values\<close>

lemma isNumericLoop_nullish:
  "list_all (\<lambda>row. obj_get row c = Null \<or> obj_get row c = Undefined) rows \<Longrightarrow> isNumericLoop c rows"
  by (induction rows) simp_all

lemma isStringLoop_nullish:
  "list_all (\<lambda>row. obj_get row c = Null \<or> obj_get row c = Undefined) rows \<Longrightarrow> isStringLoop c rows"
  by (induction rows) simp_all

text \<open>
  C10. In a frame with at least one row, for a column of the frame whose value is \<open>null\<close> or
  \<open>undefined\<close> in every row, \<open>isNumeric\<close> returns true, \<open>isString\<close> returns true and
  \<open>getColumnType\<close> returns \<open>'mixed'\<close>: both scans skip such cells, so neither finds a cell of
  the wrong type. The values are those of the reads \<open>row[c]\<close> that \<open>modelledRead\<close> covers: where a
  row has no property \<open>c\<close> and inherits one of that name, the value read is not \<open>undefined\<close>.
\<close>

theorem C10_nullish_column_is_mixed:
  assumes rows: "data df \<noteq> []"
    and col: "c \<in> set (columns df)"
    and scope: "\<forall>row \<in> set (data df). modelledRead row c"
    and cells: "\<forall>row \<in> set (data df). obj_get row c = Null \<or> obj_get row c = Undefined"
  shows "isNumeric df c = Inr True \<and> isString df c = Inr True \<and> getColumnType df c = Inr TypeMixed"
proof -
  from cells have all: "list_all (\<lambda>row. obj_get row c = Null \<or> obj_get row c = Undefined) (data df)"
    by (simp add: list_all_iff)
  have n: "isNumeric df c = Inr True"
    using rows col isNumericLoop_nullish [OF all]
    by (simp add: isNumeric_def getColumnNames_def getRows_def)
  have s: "isString df c = Inr True"
    using rows col isStringLoop_nullish [OF all]
    by (simp add: isString_def getColumnNames_def getRows_def)
  have "getColumnType df c = Inr TypeMixed"
    using rows col by (simp add: getColumnType_def n s getColumnNames_def getRows_def)
  with n s show ?thesis by simp
qed

text \<open>
  The theorem at a frame of two rows whose column \<open>note\<close> is \<open>null\<close> in the first row and
  missing (\<open>undefined\<close>) in the second.
\<close>

theorem C10_nullish_column_witness:
  "isNumeric (DataFrame_new [[(''id'', Num (Fin 1)), (''note'', Null)], [(''id'', Num (Fin 2))]]) ''note'' = Inr True
   \<and> isString (DataFrame_new [[(''id'', Num (Fin 1)), (''note'', Null)], [(''id'', Num (Fin 2))]]) ''note'' = Inr True
   \<and> getColumnType (DataFrame_new [[(''id'', Num (Fin 1)), (''note'', Null)], [(''id'', Num (Fin 2))]]) ''note''
       = Inr TypeMixed"
proof -
  let ?df = "DataFrame_new [[(''id'', Num (Fin 1)), (''note'', Null)], [(''id'', Num (Fin 2))]]"
  have rows: "data ?df \<noteq> []"
    by (simp add: DataFrame_new_def)
  have col: "''note'' \<in> set (columns ?df)"
    by (simp add: DataFrame_new_def Object_keys_def)
  have scope: "\<forall>row \<in> set (data ?df). modelledRead row ''note''"
    by (simp add: DataFrame_new_def modelledRead_def objectPrototypeNames_def)
  have cells: "\<forall>row \<in> set (data ?df). obj_get row ''note'' = Null \<or> obj_get row ''note'' = Undefined"
    by (simp add: DataFrame_new_def obj_get_def)
  show ?thesis by (rule C10_nullish_column_is_mixed [OF rows col scope cells])
qed

section \<open>Column access\<close>

text \<open>
  C6. The claim says that \<open>getColumn\<close> fails with UnknownColumn for a name that is not a column
  of the table, as the other column operations do. \<open>getColumn\<close> has no check: on the frame
  that \<open>fromCSV\<close> reads from the header \<open>name\<close> and the rows \<open>Alice\<close> and \<open>Bob\<close> (a frame of the
  type \<open>DataFrame<Record<string, any>>\<close>, which takes any string as a column name) and the
  name \<open>age\<close> it returns one \<open>undefined\<close> per row, where \<open>select\<close> and \<open>isNumeric\<close> on the same
  frame and name fail with UnknownColumn. For every frame and every name, known or not, the
  result of \<open>getColumn\<close> is the list of the values \<open>row[columnName]\<close> in row order
  (\<open>getColumn_values\<close>).
\<close>

theorem C6_getColumn_unknown_column:
  "fromCSV toNumber ''name\<newline>Alice\<newline>Bob'' None = DataFrame_new [[(''name'', Str ''Alice'')], [(''name'', Str ''Bob'')]]
   \<and> getColumn (DataFrame_new [[(''name'', Str ''Alice'')], [(''name'', Str ''Bob'')]]) ''age'' = Inr [Undefined, Undefined]
   \<and> select (DataFrame_new [[(''name'', Str ''Alice'')], [(''name'', Str ''Bob'')]]) [''age''] = Inl (UnknownColumn ''age'')
   \<and> isNumeric (DataFrame_new [[(''name'', Str ''Alice'')], [(''name'', Str ''Bob'')]]) ''age'' = Inl (UnknownColumn ''age'')"
proof (intro conjI)
  have rows: "filter nonEmptyRow (parseCSVRows ''name\<newline>Alice\<newline>Bob'' '','') = [''name''] # [[''Alice''], [''Bob'']]"
    by (simp add: parseCSVRows_def nextChar_def nonEmptyRow_def trim_def isWhiteSpace_def)
  have "trim ''name\<newline>Alice\<newline>Bob'' \<noteq> []"
    by (simp add: trim_def isWhiteSpace_def)
  then have "fromCSV toNumber ''name\<newline>Alice\<newline>Bob'' None = DataFrame_new (map (buildRow toNumber [''name'']) [[''Alice''], [''Bob'']])"
    using rows by (rule fromCSV_default_rows) simp
  moreover have "buildRow toNumber [''name''] [''Alice''] = [(''name'', Str ''Alice'')]"
    by (simp add: buildRow_def padValues_def fieldAt_def obj_set_def Object_keys_def isArrayIndex_def
        isDigit_def inferValue_def trim_def isWhiteSpace_def numberPattern_def dropMinus_def)
  moreover have "buildRow toNumber [''name''] [''Bob''] = [(''name'', Str ''Bob'')]"
    by (simp add: buildRow_def padValues_def fieldAt_def obj_set_def Object_keys_def isArrayIndex_def
        isDigit_def inferValue_def trim_def isWhiteSpace_def numberPattern_def dropMinus_def)
  ultimately show "fromCSV toNumber ''name\<newline>Alice\<newline>Bob'' None = DataFrame_new [[(''name'', Str ''Alice'')], [(''name'', Str ''Bob'')]]"
    by simp
qed (simp_all add: getColumn_def select_def isNumeric_def getColumnNames_def DataFrame_new_def obj_get_def Object_keys_def)

section \<open>The invariant of a frame\<close>

text \<open>
  C9. Every reachable frame (built by the constructor, by \<open>select\<close> or by \<open>fromCSV\<close>) that has
  no row has no column. In the headers-only case, where the text is not blank and the header
  is the only row left after the empty lines are dropped, \<open>fromCSV\<close> with the default options
  returns a frame of one row and not a frame without rows; that row has the header's column
  names, each with the value \<open>null\<close> (for a header without the name \<open>__proto__\<close>, whose
  assignment creates no property).
\<close>

theorem C9_zero_rows_zero_columns:
  "(reachable df \<and> data df = [] \<longrightarrow> columns df = [])
   \<and> (trim csvString \<noteq> [] \<and> filter nonEmptyRow (parseCSVRows csvString '','') = [header]
        \<and> ''__proto__'' \<notin> set header
      \<longrightarrow> data (fromCSV toNumber csvString None) = [emptyRow header]
          \<and> set (Object_keys (emptyRow header)) = set header
          \<and> (\<forall>c \<in> set header. obj_get (emptyRow header) c = Null))"
proof -
  have "reachable df \<Longrightarrow> data df = [] \<Longrightarrow> columns df = []"
  proof (induction rule: reachable.induct)
    case (constructed rows)
    then show ?case by (rule DataFrame_new_invariant)
  next
    case (selected df columnNames df')
    then show ?case by (simp add: select_invariant)
  next
    case (parsed toNumber csvString options)
    then show ?case by (rule fromCSV_invariant)
  qed
  then show ?thesis
    by (simp add: fromCSV_headers_only data_DataFrame_new emptyRow_keys emptyRow_get)
qed

lemma parse_header_example: "parseCSVRows ''name,age,city'' '','' = [[''name'', ''age'', ''city'']]"
  by (simp add: parseCSVRows_def nextChar_def)

text \<open>
  The theorem at the frame \<open>new DataFrame([])\<close> and at the text \<open>name,age,city\<close>, which reads
  as one row with the three columns \<open>null\<close>.
\<close>

theorem C9_zero_rows_witness:
  "columns (DataFrame_new []) = []
   \<and> data (fromCSV (\<lambda>s. NaN) ''name,age,city'' None) = [[(''name'', Null), (''age'', Null), (''city'', Null)]]"
proof -
  have r: "reachable (DataFrame_new []) \<and> data (DataFrame_new []) = []"
    using reachable.constructed [of "[]"] by (simp add: DataFrame_new_def)
  have t: "trim ''name,age,city'' \<noteq> []
      \<and> filter nonEmptyRow (parseCSVRows ''name,age,city'' '','') = [[''name'', ''age'', ''city'']]
      \<and> ''__proto__'' \<notin> set [''name'', ''age'', ''city'']"
    by (simp add: parse_header_example nonEmptyRow_def trim_def isWhiteSpace_def)
  have e: "emptyRow [''name'', ''age'', ''city''] = [(''name'', Null), (''age'', Null), (''city'', Null)]"
    by (simp add: emptyRow_def obj_set_def Object_keys_def isArrayIndex_def isDigit_def)
  from C9_zero_rows_zero_columns [of "DataFrame_new []" "''name,age,city''" "[''name'', ''age'', ''city'']" "\<lambda>s. NaN"]
  have "columns (DataFrame_new []) = []"
    and "data (fromCSV (\<lambda>s. NaN) ''name,age,city'' None) = [emptyRow [''name'', ''age'', ''city'']]"
    using r t by blast+
  then show ?thesis by (simp add: e)
qed

section \<open>The tokenizer on escaped fields\<close>

lemma parseLoop_plain:
  "plainText p \<Longrightarrow> parseLoop '','' rows cr cur False (p @ rest) = parseLoop '','' rows cr (cur @ p) False rest"
proof (induction p arbitrary: cur)
  case Nil
  then show ?case by simp
next
  case (Cons c p)
  then have c: "c \<noteq> CHR '',''" "c \<noteq> DQUOTE" "c \<noteq> LF" "c \<noteq> CR" and p: "plainText p"
    by (auto simp: plainText_def specialChar_def)
  from c have "parseLoop '','' rows cr cur False ((c # p) @ rest) = parseLoop '','' rows cr (cur @ [c]) False (p @ rest)"
    by simp
  also have "\<dots> = parseLoop '','' rows cr ((cur @ [c]) @ p) False rest"
    by (rule Cons.IH [OF p])
  finally show ?case by simp
qed

lemma parseLoop_quoted_body:
  "nextChar rest \<noteq> Some DQUOTE \<Longrightarrow>
     parseLoop d rows cr cur True (doubleQuotes f @ DQUOTE # rest) = parseLoop d rows cr (cur @ f) False rest"
proof (induction f arbitrary: cur)
  case Nil
  then show ?case by (simp add: doubleQuotes_def)
next
  case (Cons c f)
  show ?case
  proof (cases "c = DQUOTE")
    case True
    then have "parseLoop d rows cr cur True (doubleQuotes (c # f) @ DQUOTE # rest)
        = parseLoop d rows cr (cur @ [DQUOTE]) True (doubleQuotes f @ DQUOTE # rest)"
      by (simp add: doubleQuotes_def nextChar_def)
    also have "\<dots> = parseLoop d rows cr ((cur @ [DQUOTE]) @ f) False rest"
      by (rule Cons.IH [OF Cons.prems])
    finally show ?thesis using True by simp
  next
    case False
    then have "parseLoop d rows cr cur True (doubleQuotes (c # f) @ DQUOTE # rest)
        = parseLoop d rows cr (cur @ [c]) True (doubleQuotes f @ DQUOTE # rest)"
      by (simp add: doubleQuotes_def)
    also have "\<dots> = parseLoop d rows cr ((cur @ [c]) @ f) False rest"
      by (rule Cons.IH [OF Cons.prems])
    finally show ?thesis by simp
  qed
qed

lemma fieldEnd_nextChar: "fieldEnd rest \<Longrightarrow> nextChar rest \<noteq> Some DQUOTE"
  by (cases rest) (auto simp: fieldEnd_def nextChar_def)

lemma parseLoop_field:
  assumes "fieldText e f" and "fieldEnd rest"
  shows "parseLoop '','' rows cr [] False (e @ rest) = parseLoop '','' rows cr f False rest"
proof (cases "plainText f \<and> e = f")
  case True
  then show ?thesis using parseLoop_plain [of f rows cr "[]" rest] by simp
next
  case False
  with assms(1) have e: "e = [DQUOTE] @ doubleQuotes f @ [DQUOTE]" by (simp add: fieldText_def)
  have "parseLoop '','' rows cr [] False (e @ rest) = parseLoop '','' rows cr [] True (doubleQuotes f @ DQUOTE # rest)"
    by (simp add: e)
  also have "\<dots> = parseLoop '','' rows cr ([] @ f) False rest"
    by (rule parseLoop_quoted_body [OF fieldEnd_nextChar [OF assms(2)]])
  finally show ?thesis by simp
qed

lemma fieldEnd_comma: "fieldEnd (CHR '','' # rest)"
  by (simp add: fieldEnd_def)

lemma parseLoop_row:
  "list_all2 fieldText es fs \<Longrightarrow> es \<noteq> [] \<Longrightarrow> rest = [] \<or> hd rest = LF \<Longrightarrow>
     parseLoop '','' rows cr [] False (join '','' es @ rest)
       = parseLoop '','' rows (cr @ butlast fs) (last fs) False rest"
proof (induction es arbitrary: fs cr)
  case Nil
  then show ?case by simp
next
  case (Cons e es)
  from Cons.prems(1) obtain f fs' where fs: "fs = f # fs'" and ef: "fieldText e f" and rest: "list_all2 fieldText es fs'"
    by (auto simp: list_all2_Cons1)
  show ?case
  proof (cases es)
    case Nil
    with rest have "fs' = []" by simp
    moreover from Cons.prems(3) have "fieldEnd rest" by (auto simp: fieldEnd_def)
    ultimately show ?thesis using Nil fs parseLoop_field [OF ef, of rest rows cr] by simp
  next
    case (Cons e' es')
    with rest have ne: "fs' \<noteq> []" by auto
    have "parseLoop '','' rows cr [] False (join '','' (e # es) @ rest)
        = parseLoop '','' rows cr [] False (e @ CHR '','' # (join '','' es @ rest))"
      by (simp add: Cons)
    also have "\<dots> = parseLoop '','' rows cr f False (CHR '','' # (join '','' es @ rest))"
      by (rule parseLoop_field [OF ef fieldEnd_comma])
    also have "\<dots> = parseLoop '','' rows (cr @ [f]) [] False (join '','' es @ rest)"
      by simp
    also have "\<dots> = parseLoop '','' rows ((cr @ [f]) @ butlast fs') (last fs') False rest"
      using Cons by (intro Cons.IH [OF rest _ Cons.prems(3)]) simp
    finally show ?thesis using ne by (simp add: fs)
  qed
qed

lemma parseLoop_table:
  "list_all2 (list_all2 fieldText) ess fss \<Longrightarrow> ess \<noteq> [] \<Longrightarrow> list_all (\<lambda>es. es \<noteq> []) ess \<Longrightarrow>
     parseLoop '','' rows [] [] False (join ''\<newline>'' (map (join '','') ess)) = rows @ fss"
proof (induction ess arbitrary: fss rows)
  case Nil
  then show ?case by simp
next
  case (Cons es ess)
  from Cons.prems(1) obtain fs fss' where fss: "fss = fs # fss'" and row: "list_all2 fieldText es fs"
    and rest: "list_all2 (list_all2 fieldText) ess fss'"
    by (auto simp: list_all2_Cons1)
  from Cons.prems(3) have es: "es \<noteq> []" and all: "list_all (\<lambda>es. es \<noteq> []) ess" by simp_all
  from row es have fs: "fs \<noteq> []" by auto
  show ?case
  proof (cases ess)
    case Nil
    with rest have "fss' = []" by simp
    moreover have "parseLoop '','' rows [] [] False (join '','' es @ []) = parseLoop '','' rows ([] @ butlast fs) (last fs) False []"
      by (rule parseLoop_row [OF row es]) simp
    ultimately show ?thesis using Nil fss fs by simp
  next
    case (Cons es' ess')
    have "parseLoop '','' rows [] [] False (join ''\<newline>'' (map (join '','') (es # ess)))
        = parseLoop '','' rows [] [] False (join '','' es @ LF # join ''\<newline>'' (map (join '','') ess))"
      by (simp add: Cons)
    also have "\<dots> = parseLoop '','' rows ([] @ butlast fs) (last fs) False (LF # join ''\<newline>'' (map (join '','') ess))"
      by (rule parseLoop_row [OF row es]) simp
    also have "\<dots> = parseLoop '','' (rows @ [fs]) [] [] False (join ''\<newline>'' (map (join '','') ess))"
      using fs by simp
    also have "\<dots> = (rows @ [fs]) @ fss'"
      using Cons by (intro Cons.IH [OF rest _ all]) simp
    finally show ?thesis by (simp add: fss)
  qed
qed

lemma parseCSVRows_table:
  "list_all2 (list_all2 fieldText) ess fss \<Longrightarrow> ess \<noteq> [] \<Longrightarrow> list_all (\<lambda>es. es \<noteq> []) ess \<Longrightarrow>
     parseCSVRows (join ''\<newline>'' (map (join '','') ess)) '','' = fss"
  using parseLoop_table [of ess fss "[]"] by (simp add: parseCSVRows_def)

section \<open>The row tokenizer on row terminators\<close>

text \<open>
  Two rows of plain fields (no comma, quote, line feed or carriage return in any field), joined
  by each of the three terminators. A line feed and a lone carriage return separate the rows;
  a carriage return before a line feed stays in the last field of the first row, so the third
  text never parses to the rows the first two parse to.
\<close>

lemma parseLoop_plain_row:
  "list_all plainText fs \<Longrightarrow> fs \<noteq> [] \<Longrightarrow>
     parseLoop '','' rows cr [] False (join '','' fs @ rest)
       = parseLoop '','' rows (cr @ butlast fs) (last fs) False rest"
proof (induction fs arbitrary: cr)
  case Nil
  then show ?case by simp
next
  case (Cons f fs)
  then have f: "plainText f" and rest: "list_all plainText fs" by simp_all
  show ?case
  proof (cases fs)
    case Nil
    then show ?thesis using parseLoop_plain [OF f, of rows cr "[]" rest] by simp
  next
    case (Cons f' fs')
    have "parseLoop '','' rows cr [] False (join '','' (f # fs) @ rest)
        = parseLoop '','' rows cr [] False (f @ CHR '','' # (join '','' fs @ rest))"
      by (simp add: Cons)
    also have "\<dots> = parseLoop '','' rows cr ([] @ f) False (CHR '','' # (join '','' fs @ rest))"
      by (rule parseLoop_plain [OF f])
    also have "\<dots> = parseLoop '','' rows (cr @ [f]) [] False (join '','' fs @ rest)"
      by simp
    also have "\<dots> = parseLoop '','' rows ((cr @ [f]) @ butlast fs) (last fs) False rest"
      using Cons by (intro Cons.IH [OF rest]) simp
    finally show ?thesis using Cons by simp
  qed
qed

lemma nextChar_plain_row:
  "list_all plainText fs \<Longrightarrow> nextChar (join '','' fs @ rest) \<noteq> Some LF \<or> (join '','' fs = [] \<and> nextChar rest = Some LF)"
proof (induction "'',''" fs rule: join.induct)
  case 1
  then show ?case by (simp add: nextChar_def split: list.splits)
next
  case (2 x)
  then show ?case
    by (cases x) (auto simp: nextChar_def plainText_def specialChar_def split: list.splits)
next
  case (3 x y ys)
  then show ?case
    by (cases x) (auto simp: nextChar_def plainText_def specialChar_def)
qed

lemma two_rows_lf:
  assumes "list_all plainText r1" "r1 \<noteq> []" "list_all plainText r2" "r2 \<noteq> []"
  shows "parseCSVRows (join '','' r1 @ [LF] @ join '','' r2) '','' = [r1, r2]"
proof -
  have "parseLoop '','' [] [] [] False (join '','' r1 @ LF # (join '','' r2 @ []))
      = parseLoop '','' [] ([] @ butlast r1) (last r1) False (LF # (join '','' r2 @ []))"
    by (rule parseLoop_plain_row [OF assms(1,2)])
  also have "\<dots> = parseLoop '','' [r1] [] [] False (join '','' r2 @ [])"
    using assms(2) by simp
  also have "\<dots> = parseLoop '','' [r1] ([] @ butlast r2) (last r2) False []"
    by (rule parseLoop_plain_row [OF assms(3,4)])
  finally show ?thesis using assms(4) by (simp add: parseCSVRows_def)
qed

lemma two_rows_cr:
  assumes "list_all plainText r1" "r1 \<noteq> []" "list_all plainText r2" "r2 \<noteq> []"
  shows "parseCSVRows (join '','' r1 @ [CR] @ join '','' r2) '','' = [r1, r2]"
proof -
  have next_ok: "nextChar (join '','' r2 @ []) \<noteq> Some LF"
    using nextChar_plain_row [OF assms(3), of "[]"] by (auto simp: nextChar_def)
  have "parseLoop '','' [] [] [] False (join '','' r1 @ CR # (join '','' r2 @ []))
      = parseLoop '','' [] ([] @ butlast r1) (last r1) False (CR # (join '','' r2 @ []))"
    by (rule parseLoop_plain_row [OF assms(1,2)])
  also have "\<dots> = parseLoop '','' [r1] [] [] False (join '','' r2 @ [])"
    using assms(2) next_ok by simp
  also have "\<dots> = parseLoop '','' [r1] ([] @ butlast r2) (last r2) False []"
    by (rule parseLoop_plain_row [OF assms(3,4)])
  finally show ?thesis using assms(4) by (simp add: parseCSVRows_def)
qed

lemma two_rows_crlf:
  assumes "list_all plainText r1" "r1 \<noteq> []" "list_all plainText r2" "r2 \<noteq> []"
  shows "parseCSVRows (join '','' r1 @ [CR, LF] @ join '','' r2) '','' = [butlast r1 @ [last r1 @ [CR]], r2]"
proof -
  have "parseLoop '','' [] [] [] False (join '','' r1 @ CR # LF # (join '','' r2 @ []))
      = parseLoop '','' [] ([] @ butlast r1) (last r1) False (CR # LF # (join '','' r2 @ []))"
    by (rule parseLoop_plain_row [OF assms(1,2)])
  also have "\<dots> = parseLoop '','' [butlast r1 @ [last r1 @ [CR]]] [] [] False (join '','' r2 @ [])"
    by (simp add: nextChar_def)
  also have "\<dots> = parseLoop '','' [butlast r1 @ [last r1 @ [CR]]] ([] @ butlast r2) (last r2) False []"
    by (rule parseLoop_plain_row [OF assms(3,4)])
  finally show ?thesis using assms(4) by (simp add: parseCSVRows_def)
qed

lemma two_rows_crlf_differs:
  assumes "list_all plainText r1" "r1 \<noteq> []" "list_all plainText r2" "r2 \<noteq> []"
  shows "parseCSVRows (join '','' r1 @ [CR, LF] @ join '','' r2) '','' \<noteq> parseCSVRows (join '','' r1 @ [LF] @ join '','' r2) '',''"
proof -
  have "butlast r1 @ [last r1 @ [CR]] \<noteq> butlast r1 @ [last r1]" by simp
  with assms(2) have "butlast r1 @ [last r1 @ [CR]] \<noteq> r1" by simp
  then show ?thesis
    unfolding two_rows_lf [OF assms] two_rows_crlf [OF assms] by simp
qed

text \<open>A row of plain fields ended by a line feed: the tokenizer adds a row of one empty field.\<close>

lemma trailing_lf_row:
  assumes "list_all plainText r" "r \<noteq> []"
  shows "parseCSVRows (join '','' r @ [LF]) '','' = [r, [[]]]"
proof -
  have "parseLoop '','' [] [] [] False (join '','' r @ [LF])
      = parseLoop '','' [] ([] @ butlast r) (last r) False [LF]"
    by (rule parseLoop_plain_row [OF assms])
  also have "\<dots> = [r, [[]]]"
    using assms(2) by simp
  finally show ?thesis by (simp add: parseCSVRows_def)
qed

text \<open>
  C5. The claim says that at the end of the input no final row is emitted when the pending row
  and the pending field are both empty, so that a text ending in a row terminator gets no
  extra row of one empty field. The loop pushes the pending field onto the pending row before
  it tests \<open>currentRow.length > 0 || current !== ''\<close>, so the test always holds and the last row
  is always emitted (\<open>parseLoop_end\<close>): the text \<open>a,b\<close> followed by a line feed parses to the row
  \<open>a,b\<close> and a second row of one empty field, as does every row of plain fields
  (\<open>trailing_lf_row\<close>). With \<open>skipEmptyLines\<close> off the extra row reaches
  the frame: the header \<open>a,b\<close> and the one data line \<open>1,2\<close>, each ended by a line feed, read as a
  frame of two rows.
\<close>

theorem C5_trailing_terminator_row:
  "parseCSVRows ''a,b\<newline>'' '','' = [[''a'', ''b''], [[]]]
   \<and> length (data (fromCSV toNumber ''a,b\<newline>1,2\<newline>''
         (Some \<lparr>importDelimiter = None, hasHeaders = None, skipEmptyLines = Some False\<rparr>))) = 2"
proof
  show "parseCSVRows ''a,b\<newline>'' '','' = [[''a'', ''b''], [[]]]"
    by (simp add: parseCSVRows_def nextChar_def)
  have "parseCSVRows ''a,b\<newline>1,2\<newline>'' '','' = [[''a'', ''b''], [''1'', ''2''], [[]]]"
    by (simp add: parseCSVRows_def nextChar_def)
  moreover have "trim ''a,b\<newline>1,2\<newline>'' \<noteq> []"
    by (simp add: trim_def isWhiteSpace_def)
  ultimately show "length (data (fromCSV toNumber ''a,b\<newline>1,2\<newline>''
         (Some \<lparr>importDelimiter = None, hasHeaders = None, skipEmptyLines = Some False\<rparr>))) = 2"
    by (simp add: fromCSV_def optionOr_def data_DataFrame_new Let_def)
qed

text \<open>
  C2. The claim says that two rows joined by a line feed, by a carriage return and a line feed,
  or by a carriage return alone parse to the same two rows. A carriage return that a line
  feed follows is not a row separator in the loop and is not skipped either: it is appended
  to the field. The text \<open>a,b\<close> CR LF \<open>c,d\<close> parses to rows whose second field is \<open>b\<close> followed
  by a carriage return; the other two texts parse to \<open>a,b\<close> and \<open>c,d\<close>. Read by \<open>fromCSV\<close>, the
  first text gives a frame whose second column is named \<open>b\<close> followed by a carriage return.
  The same holds for every two rows of plain fields (\<open>two_rows_crlf_differs\<close>).
\<close>

theorem C2_crlf_keeps_carriage_return:
  "parseCSVRows (''a,b'' @ [CR, LF] @ ''c,d'') '','' = [[''a'', ''b'' @ [CR]], [''c'', ''d'']]
   \<and> parseCSVRows ''a,b\<newline>c,d'' '','' = [[''a'', ''b''], [''c'', ''d'']]
   \<and> parseCSVRows (''a,b'' @ [CR] @ ''c,d'') '','' = [[''a'', ''b''], [''c'', ''d'']]
   \<and> columns (fromCSV toNumber (''a,b'' @ [CR, LF] @ ''c,d'') None) = [''a'', ''b'' @ [CR]]"
proof (intro conjI)
  have rows: "filter nonEmptyRow (parseCSVRows (''a,b'' @ [CR, LF] @ ''c,d'') '','') = [''a'', ''b'' @ [CR]] # [[''c'', ''d'']]"
    by (simp add: parseCSVRows_def nextChar_def nonEmptyRow_def trim_def isWhiteSpace_def)
  have "trim (''a,b'' @ [CR, LF] @ ''c,d'') \<noteq> []"
    by (simp add: trim_def isWhiteSpace_def)
  then have "fromCSV toNumber (''a,b'' @ [CR, LF] @ ''c,d'') None = DataFrame_new (map (buildRow toNumber [''a'', ''b'' @ [CR]]) [[''c'', ''d'']])"
    using rows by (rule fromCSV_default_rows) simp
  moreover have "Object_keys (buildRow toNumber [''a'', ''b'' @ [CR]] [''c'', ''d'']) = [''a'', ''b'' @ [CR]]"
    by (simp add: buildRow_def padValues_def fieldAt_def obj_set_def Object_keys_def isArrayIndex_def isDigit_def)
  ultimately show "columns (fromCSV toNumber (''a,b'' @ [CR, LF] @ ''c,d'') None) = [''a'', ''b'' @ [CR]]"
    by (simp add: columns_DataFrame_new)
qed (simp_all add: parseCSVRows_def nextChar_def)

section \<open>The value escaper and the header line\<close>

lemma escapeCSVValue_string:
  "escapeCSVValue numToString (Str s) False =
     (if CHR '','' \<in> set s \<or> DQUOTE \<in> set s \<or> LF \<in> set s \<or> CR \<in> set s
      then [DQUOTE] @ doubleQuotes s @ [DQUOTE] else s)"
  by (simp add: escapeCSVValue_def)

lemma headerLine_verbatim: "headerLine numToString delimiter cols = join delimiter cols"
  by (simp add: headerLine_def escapeCSVValue_def)

text \<open>
  C3. The claim says that a string is quoted exactly when it contains the configured delimiter,
  a double quote, a line feed or a carriage return. The escaper tests for the comma whatever
  the delimiter is (\<open>escapeCSVValue_string\<close>): with the delimiter \<open>;\<close> the value \<open>x;y\<close> is
  written without quotes, and the text written reads back, with the same delimiter, as a row
  of two fields, so that the frame read has the cell \<open>x\<close>.
\<close>

theorem C3_escape_ignores_delimiter:
  "escapeCSVValue numToString (Str ''x;y'') False = ''x;y''
   \<and> toCSV numToString (DataFrame_new [[(''a'', Str ''x;y'')]]) (Some \<lparr>exportDelimiter = Some '';'', includeHeaders = None\<rparr>)
       = ''a\<newline>x;y''
   \<and> parseCSVRows ''a\<newline>x;y'' '';'' = [[''a''], [''x'', ''y'']]
   \<and> fromCSV toNumber ''a\<newline>x;y'' (Some \<lparr>importDelimiter = Some '';'', hasHeaders = None, skipEmptyLines = None\<rparr>)
       = DataFrame_new [[(''a'', Str ''x'')]]"
proof (intro conjI)
  have "parseCSVRows ''a\<newline>x;y'' '';'' = [[''a''], [''x'', ''y'']]"
    by (simp add: parseCSVRows_def nextChar_def)
  moreover have "trim ''a\<newline>x;y'' \<noteq> []"
    by (simp add: trim_def isWhiteSpace_def)
  moreover have "buildRow toNumber [''a''] [''x'', ''y''] = [(''a'', Str ''x'')]"
    by (simp add: buildRow_def padValues_def fieldAt_def obj_set_def Object_keys_def isArrayIndex_def
        isDigit_def inferValue_def trim_def isWhiteSpace_def numberPattern_def dropMinus_def)
  ultimately show "fromCSV toNumber ''a\<newline>x;y'' (Some \<lparr>importDelimiter = Some '';'', hasHeaders = None, skipEmptyLines = None\<rparr>)
       = DataFrame_new [[(''a'', Str ''x'')]]"
    by (simp add: fromCSV_def optionOr_def nonEmptyRow_def trim_def isWhiteSpace_def Let_def)
qed (simp_all add: escapeCSVValue_def toCSV_def optionOr_def getRows_def getColumnNames_def DataFrame_new_def
      Object_keys_def headerLine_def cellText_def obj_get_def Number_isNaN_def parseCSVRows_def nextChar_def)

text \<open>
  C4. The claim says that a column name is escaped as a string in the header line, so that a
  name with a delimiter, a quote or a newline is quoted. \<open>toCSV\<close> passes \<open>true\<close> for \<open>isNumeric\<close>
  when it escapes a column name, so the name is written as it is (\<open>headerLine_verbatim\<close>): the
  frame of the one row \<open>{'a,b': 'x'}\<close> is written with the header \<open>a,b\<close>, which reads back as
  the two columns \<open>a\<close> and \<open>b\<close>.
\<close>

theorem C4_header_not_escaped:
  "toCSV numToString (DataFrame_new [[(''a,b'', Str ''x'')]]) None = ''a,b\<newline>x''
   \<and> parseCSVRows ''a,b\<newline>x'' '','' = [[''a'', ''b''], [''x'']]
   \<and> fromCSV toNumber ''a,b\<newline>x'' None = DataFrame_new [[(''a'', Str ''x''), (''b'', Null)]]"
proof (intro conjI)
  have rows: "filter nonEmptyRow (parseCSVRows ''a,b\<newline>x'' '','') = [''a'', ''b''] # [[''x'']]"
    by (simp add: parseCSVRows_def nextChar_def nonEmptyRow_def trim_def isWhiteSpace_def)
  have "trim ''a,b\<newline>x'' \<noteq> []"
    by (simp add: trim_def isWhiteSpace_def)
  then have "fromCSV toNumber ''a,b\<newline>x'' None = DataFrame_new (map (buildRow toNumber [''a'', ''b'']) [[''x'']])"
    using rows by (rule fromCSV_default_rows) simp
  moreover have "buildRow toNumber [''a'', ''b''] [''x''] = [(''a'', Str ''x''), (''b'', Null)]"
    by (simp add: buildRow_def padValues_def fieldAt_def obj_set_def Object_keys_def isArrayIndex_def
        isDigit_def inferValue_def trim_def isWhiteSpace_def numberPattern_def dropMinus_def)
  ultimately show "fromCSV toNumber ''a,b\<newline>x'' None = DataFrame_new [[(''a'', Str ''x''), (''b'', Null)]]"
    by simp
qed (simp_all add: escapeCSVValue_def toCSV_def optionOr_def getRows_def getColumnNames_def DataFrame_new_def
      Object_keys_def headerLine_def cellText_def obj_get_def Number_isNaN_def parseCSVRows_def nextChar_def)

section \<open>Type inference on leading zeros\<close>

lemma hasLeadingZeros_not_nullish: "hasLeadingZeros t \<Longrightarrow> t \<noteq> [] \<and> t \<noteq> ''null'' \<and> t \<noteq> ''NULL''"
  by (auto simp: hasLeadingZeros_def dropMinus_def)

lemma inferValue_leading_zeros: "hasLeadingZeros (trim field) \<Longrightarrow> inferValue toNumber field = Str field"
  using hasLeadingZeros_not_nullish [of "trim field"] by (simp add: inferValue_def Let_def)

text \<open>
  C7. A field whose trimmed text starts with an optional minus sign, one or more zeros and
  then a digit from 1 to 9 is kept as the string it is, untrimmed: by the inference of one field, and in
  the frame \<open>fromCSV\<close> returns with the default options, at the row and the column of that field
  (for a header without a repeated name, where no later field writes the same cell, and a
  column not named \<open>__proto__\<close>). The fields
  \<open>0\<close> and \<open>0.5\<close> match the number pattern and have no such leading zero, so they become the numbers
  \<open>Number\<close> gives for them, 0 and 0.5.
\<close>

theorem C7_leading_zero_fields_stay_strings:
  "(hasLeadingZeros (trim field) \<longrightarrow> inferValue toNumber field = Str field)
   \<and> (trim csv \<noteq> [] \<and> filter nonEmptyRow (parseCSVRows csv '','') = header # drows
        \<and> distinct header \<and> i < length drows \<and> j < length header \<and> header ! j \<noteq> ''__proto__''
        \<and> hasLeadingZeros (trim (fieldAt (drows ! i) j))
      \<longrightarrow> obj_get (data (fromCSV toNumber csv None) ! i) (header ! j) = Str (fieldAt (drows ! i) j))
   \<and> (toNumber ''0'' = Fin 0 \<longrightarrow> inferValue toNumber ''0'' = Num (Fin 0))
   \<and> (toNumber ''0.5'' = Fin (1 / 2) \<longrightarrow> inferValue toNumber ''0.5'' = Num (Fin (1 / 2)))"
proof -
  have cell: "obj_get (data (fromCSV toNumber csv None) ! i) (header ! j) = Str (fieldAt (drows ! i) j)"
    if "trim csv \<noteq> []" and "filter nonEmptyRow (parseCSVRows csv '','') = header # drows"
      and "distinct header" and "i < length drows" and "j < length header"
      and "hasLeadingZeros (trim (fieldAt (drows ! i) j))"
  proof -
    from that(4) have "drows \<noteq> []" by auto
    with that have "data (fromCSV toNumber csv None) ! i = buildRow toNumber header (drows ! i)"
      by (simp add: fromCSV_default_rows data_DataFrame_new)
    with that show ?thesis
      by (simp add: buildRow_get inferValue_leading_zeros)
  qed
  have zero: "inferValue toNumber ''0'' = Num (Fin 0)" if "toNumber ''0'' = Fin 0"
    using that
    by (simp add: inferValue_def trim_def isWhiteSpace_def numberPattern_def hasLeadingZeros_def
        dropMinus_def dropFraction_def exponentOrEnd_def isDigit_def)
  have half: "inferValue toNumber ''0.5'' = Num (Fin (1 / 2))" if "toNumber ''0.5'' = Fin (1 / 2)"
    using that
    by (simp add: inferValue_def trim_def isWhiteSpace_def numberPattern_def hasLeadingZeros_def
        dropMinus_def dropFraction_def exponentOrEnd_def isDigit_def)
  show ?thesis
    using cell zero half by (simp add: inferValue_leading_zeros)
qed

lemma parse_ids_example:
  "parseCSVRows ''id\<newline>001\<newline>0\<newline>0.5'' '','' = [[''id''], [''001''], [''0''], [''0.5'']]"
  by (simp add: parseCSVRows_def nextChar_def)

text \<open>
  The theorem at the text of the header \<open>id\<close> and the rows \<open>001\<close>, \<open>0\<close> and \<open>0.5\<close>, with a
  \<open>Number\<close> that gives 0 for \<open>0\<close> and 0.5 otherwise: the frame read has the string \<open>001\<close> and the
  numbers 0 and 0.5.
\<close>

theorem C7_leading_zero_witness:
  "inferValue (\<lambda>s. if s = ''0'' then Fin 0 else Fin (1 / 2)) ''001'' = Str ''001''
   \<and> obj_get (data (fromCSV (\<lambda>s. if s = ''0'' then Fin 0 else Fin (1 / 2)) ''id\<newline>001\<newline>0\<newline>0.5'' None) ! 0) ''id'' = Str ''001''
   \<and> inferValue (\<lambda>s. if s = ''0'' then Fin 0 else Fin (1 / 2)) ''0'' = Num (Fin 0)
   \<and> inferValue (\<lambda>s. if s = ''0'' then Fin 0 else Fin (1 / 2)) ''0.5'' = Num (Fin (1 / 2))
   \<and> data (fromCSV (\<lambda>s. if s = ''0'' then Fin 0 else Fin (1 / 2)) ''id\<newline>001\<newline>0\<newline>0.5'' None)
       = [[(''id'', Str ''001'')], [(''id'', Num (Fin 0))], [(''id'', Num (Fin (1 / 2)))]]"
proof -
  let ?N = "\<lambda>s. if s = ''0'' then Fin 0 else Fin (1 / 2)"
  have lz: "hasLeadingZeros (trim ''001'')"
    by (simp add: trim_def isWhiteSpace_def hasLeadingZeros_def dropMinus_def)
  have nonblank: "trim ''id\<newline>001\<newline>0\<newline>0.5'' \<noteq> []"
    by (simp add: trim_def isWhiteSpace_def)
  have rows: "filter nonEmptyRow (parseCSVRows ''id\<newline>001\<newline>0\<newline>0.5'' '','') = [''id''] # [[''001''], [''0''], [''0.5'']]"
    by (simp add: parse_ids_example nonEmptyRow_def trim_def isWhiteSpace_def)
  have fld: "fieldAt ([[''001''], [''0''], [''0.5'']] ! 0) 0 = ''001''"
    by (simp add: fieldAt_def)
  note inst = C7_leading_zero_fields_stay_strings [of "''001''" ?N
        "''id\<newline>001\<newline>0\<newline>0.5''" "[''id'']" "[[''001''], [''0''], [''0.5'']]" 0 0]
  have a: "inferValue ?N ''001'' = Str ''001''"
    using inst lz by blast
  have b: "obj_get (data (fromCSV ?N ''id\<newline>001\<newline>0\<newline>0.5'' None) ! 0) ''id'' = Str ''001''"
    using inst nonblank rows lz fld by simp
  have c: "inferValue ?N ''0'' = Num (Fin 0)"
    using inst by simp
  have d: "inferValue ?N ''0.5'' = Num (Fin (1 / 2))"
    using inst by simp
  have row: "buildRow ?N [''id''] [f] = [(''id'', inferValue ?N f)]" for f
    by (simp add: buildRow_def padValues_def fieldAt_def obj_set_def Object_keys_def isArrayIndex_def isDigit_def)
  have "fromCSV ?N ''id\<newline>001\<newline>0\<newline>0.5'' None = DataFrame_new (map (buildRow ?N [''id'']) [[''001''], [''0''], [''0.5'']])"
    using nonblank rows by (rule fromCSV_default_rows) simp
  then have e: "data (fromCSV ?N ''id\<newline>001\<newline>0\<newline>0.5'' None)
       = [[(''id'', Str ''001'')], [(''id'', Num (Fin 0))], [(''id'', Num (Fin (1 / 2)))]]"
    by (simp only: data_DataFrame_new list.map row a c d)
  from a b c d e show ?thesis by blast
qed

section \<open>Ragged rows\<close>

text \<open>
  C8. \<open>fromCSV\<close> has no error result, and a data row of any length becomes a row of the frame:
  the row built from the header and the fields has exactly the header's column names; for a row
  shorter than the header, every column from the row's length on is \<open>null\<close>; the fields beyond
  the header's length are dropped (the row built is the one built from the first fields, as many
  as the header has); and with the default options the rows of the frame are the rows built from
  the data rows, one for one. The name \<open>__proto__\<close>, whose assignment creates no property, is
  left out where a property of that name is read or counted.
\<close>

theorem C8_ragged_rows_reconciled:
  "(''__proto__'' \<notin> set header \<longrightarrow> set (Object_keys (buildRow toNumber header rowValues)) = set header)
   \<and> (length rowValues \<le> j \<and> j < length header \<and> header ! j \<noteq> ''__proto__''
      \<longrightarrow> obj_get (buildRow toNumber header rowValues) (header ! j) = Null)
   \<and> buildRow toNumber header rowValues = buildRow toNumber header (take (length header) rowValues)
   \<and> (trim csv \<noteq> [] \<and> filter nonEmptyRow (parseCSVRows csv '','') = header # drows \<and> drows \<noteq> []
      \<longrightarrow> data (fromCSV toNumber csv None) = map (buildRow toNumber header) drows)"
proof (intro conjI impI)
  show "set (Object_keys (buildRow toNumber header rowValues)) = set header"
    by (rule buildRow_keys)
  show "obj_get (buildRow toNumber header rowValues) (header ! j) = Null"
    if "length rowValues \<le> j \<and> j < length header \<and> header ! j \<noteq> ''__proto__''"
    using that by (simp add: buildRow_missing_null)
  show "buildRow toNumber header rowValues = buildRow toNumber header (take (length header) rowValues)"
    by (rule buildRow_take)
  show "data (fromCSV toNumber csv None) = map (buildRow toNumber header) drows"
    if "trim csv \<noteq> [] \<and> filter nonEmptyRow (parseCSVRows csv '','') = header # drows \<and> drows \<noteq> []"
    using that by (simp add: fromCSV_default_rows data_DataFrame_new)
qed

lemma parse_ragged_example:
  "parseCSVRows ''a,b,c\<newline>x,y\<newline>x,y,z,extra'' '','' = [[''a'', ''b'', ''c''], [''x'', ''y''], [''x'', ''y'', ''z'', ''extra'']]"
  by (simp add: parseCSVRows_def nextChar_def)

lemma not_index_letters:
  "\<not> isArrayIndex ''a''" "\<not> isArrayIndex ''b''" "\<not> isArrayIndex ''c''"
  by (simp_all add: isArrayIndex_def isDigit_def)

lemma inferValue_letters:
  "inferValue toNumber ''x'' = Str ''x''" "inferValue toNumber ''y'' = Str ''y''" "inferValue toNumber ''z'' = Str ''z''"
  by (simp_all add: inferValue_def trim_def isWhiteSpace_def numberPattern_def dropMinus_def isDigit_def)

lemma buildRow_short_example:
  "buildRow toNumber [''a'', ''b'', ''c''] [''x'', ''y''] = [(''a'', Str ''x''), (''b'', Str ''y''), (''c'', Null)]"
  by (simp add: buildRow_def padValues_def fieldAt_def obj_set_def Object_keys_def not_index_letters
      inferValue_letters inferValue_empty)

lemma buildRow_long_example:
  "buildRow toNumber [''a'', ''b'', ''c''] [''x'', ''y'', ''z'', ''extra''] = [(''a'', Str ''x''), (''b'', Str ''y''), (''c'', Str ''z'')]"
  by (simp add: buildRow_def padValues_def fieldAt_def obj_set_def Object_keys_def not_index_letters
      inferValue_letters inferValue_empty)

text \<open>
  The theorem at the header \<open>a,b,c\<close> with the rows \<open>x,y\<close> and \<open>x,y,z,extra\<close>: the first row has
  \<open>c\<close> \<open>null\<close>, the second has three columns and no \<open>extra\<close>.
\<close>

theorem C8_ragged_rows_witness:
  "set (Object_keys (buildRow (\<lambda>s. NaN) [''a'', ''b'', ''c''] [''x'', ''y''])) = {''a'', ''b'', ''c''}
   \<and> obj_get (buildRow (\<lambda>s. NaN) [''a'', ''b'', ''c''] [''x'', ''y'']) ''c'' = Null
   \<and> data (fromCSV (\<lambda>s. NaN) ''a,b,c\<newline>x,y\<newline>x,y,z,extra'' None)
       = [[(''a'', Str ''x''), (''b'', Str ''y''), (''c'', Null)],
          [(''a'', Str ''x''), (''b'', Str ''y''), (''c'', Str ''z'')]]"
proof -
  have rows: "trim ''a,b,c\<newline>x,y\<newline>x,y,z,extra'' \<noteq> []
      \<and> filter nonEmptyRow (parseCSVRows ''a,b,c\<newline>x,y\<newline>x,y,z,extra'' '','')
          = [''a'', ''b'', ''c''] # [[''x'', ''y''], [''x'', ''y'', ''z'', ''extra'']]"
    by (simp add: parse_ragged_example nonEmptyRow_def trim_def isWhiteSpace_def)
  have names: "''__proto__'' \<notin> set [''a'', ''b'', ''c'']" by simp
  have pos: "length [''x'', ''y''] \<le> 2 \<and> 2 < length [''a'', ''b'', ''c''] \<and> [''a'', ''b'', ''c''] ! 2 = ''c''"
    by simp
  show ?thesis
    using C8_ragged_rows_reconciled [of "[''a'', ''b'', ''c'']" "\<lambda>s. NaN" "[''x'', ''y'']" 2
        "''a,b,c\<newline>x,y\<newline>x,y,z,extra''" "[[''x'', ''y''], [''x'', ''y'', ''z'', ''extra'']]"]
      rows names pos
    by (simp add: buildRow_short_example buildRow_long_example)
qed

section \<open>Decimal numerals\<close>

declare natToString.simps [simp del]

declare floorLog.simps [simp del]

lemma digit_char: "d < 10 \<Longrightarrow> isDigit (char_of (48 + d :: nat))"
proof -
  assume "d < 10"
  then have "d = 0 \<or> d = 1 \<or> d = 2 \<or> d = 3 \<or> d = 4 \<or> d = 5 \<or> d = 6 \<or> d = 7 \<or> d = 8 \<or> d = 9"
    by arith
  then show ?thesis
    by (elim disjE) (simp_all add: isDigit_def char_of_def bit_iff_odd)
qed

lemma digit_value: "d < 10 \<Longrightarrow> of_char (char_of (48 + d :: nat)) - 48 = d"
  by (simp add: of_char_of)

lemma natToString_digits: "list_all isDigit (natToString n)"
proof (induction n rule: natToString.induct)
  case (1 n)
  show ?case
  proof (cases "n < 10")
    case True
    then show ?thesis by (subst natToString.simps) (simp add: digit_char)
  next
    case False
    with 1 have "list_all isDigit (natToString (n div 10))" by simp
    moreover have "isDigit (char_of (48 + n mod 10))" by (rule digit_char) simp
    ultimately show ?thesis using False by (subst natToString.simps) simp
  qed
qed

lemma natToString_nonempty: "natToString n \<noteq> []"
  by (subst natToString.simps) simp

lemma decimalValue_snoc: "decimalValue (s @ [c]) = 10 * decimalValue s + (of_char c - 48)"
  by (simp add: decimalValue_def)

lemma decimalValue_natToString: "decimalValue (natToString n) = n"
proof (induction n rule: natToString.induct)
  case (1 n)
  show ?case
  proof (cases "n < 10")
    case True
    then have "natToString n = [] @ [char_of (48 + n)]" by (subst natToString.simps) simp
    then have "decimalValue (natToString n) = 10 * decimalValue [] + (of_char (char_of (48 + n)) - 48)"
      by (simp only: decimalValue_snoc)
    also have "\<dots> = n" using True by (simp add: decimalValue_def digit_value)
    finally show ?thesis .
  next
    case False
    with 1 have ih: "decimalValue (natToString (n div 10)) = n div 10" by simp
    from False have "natToString n = natToString (n div 10) @ [char_of (48 + n mod 10)]"
      by (subst natToString.simps) simp
    then have "decimalValue (natToString n) = 10 * decimalValue (natToString (n div 10)) + (of_char (char_of (48 + n mod 10)) - 48)"
      by (simp only: decimalValue_snoc)
    also have "\<dots> = 10 * (n div 10) + n mod 10" by (simp add: ih digit_value)
    finally show ?thesis by simp
  qed
qed

lemma decimalValue_append: "decimalValue (xs @ ys) = decimalValue xs * 10 ^ length ys + decimalValue ys"
proof (induction ys rule: rev_induct)
  case Nil
  show ?case by (simp add: decimalValue_def)
next
  case (snoc c ys)
  have "decimalValue (xs @ ys @ [c]) = 10 * decimalValue (xs @ ys) + (of_char c - 48)"
    using decimalValue_snoc [of "xs @ ys" c] by simp
  also have "\<dots> = decimalValue xs * 10 ^ length (ys @ [c]) + (10 * decimalValue ys + (of_char c - 48))"
    by (simp add: snoc.IH algebra_simps)
  also have "10 * decimalValue ys + (of_char c - 48) = decimalValue (ys @ [c])"
    by (simp only: decimalValue_snoc)
  finally show ?case .
qed

lemma decimalValue_zeros: "decimalValue (replicate z (CHR ''0'')) = 0"
  by (induction z) (simp_all add: decimalValue_def)

lemma hd_natToString: "0 < n \<Longrightarrow> hd (natToString n) \<noteq> CHR ''0''"
proof (induction n rule: natToString.induct)
  case (1 n)
  show ?case
  proof (cases "n < 10")
    case True
    have "char_of (48 + n) \<noteq> CHR ''0''"
    proof
      assume "char_of (48 + n) = CHR ''0''"
      then have "of_char (char_of (48 + n)) = (of_char (CHR ''0'') :: nat)" by simp
      with True 1(2) show False by (simp add: of_char_of)
    qed
    with True show ?thesis by (subst natToString.simps) simp
  next
    case False
    then have "0 < n div 10" by simp
    with 1 False have "hd (natToString (n div 10)) \<noteq> CHR ''0''" by simp
    moreover from False have "natToString n = natToString (n div 10) @ [char_of (48 + n mod 10)]"
      by (subst natToString.simps) simp
    ultimately show ?thesis by (simp add: natToString_nonempty)
  qed
qed

lemma natToString_bounds:
  "0 < n \<Longrightarrow> 10 ^ (length (natToString n) - 1) \<le> n \<and> n < 10 ^ length (natToString n)"
proof (induction n rule: natToString.induct)
  case (1 n)
  show ?case
  proof (cases "n < 10")
    case True
    then have "length (natToString n) = 1" by (subst natToString.simps) simp
    with True 1(2) show ?thesis by simp
  next
    case False
    then have pos: "0 < n div 10" by simp
    from False have eq: "natToString n = natToString (n div 10) @ [char_of (48 + n mod 10)]"
      by (subst natToString.simps) simp
    let ?L = "length (natToString (n div 10))"
    from 1 False pos have ih: "10 ^ (?L - 1) \<le> n div 10 \<and> n div 10 < 10 ^ ?L" by simp
    have L: "0 < ?L" by (simp add: natToString_nonempty)
    have len: "length (natToString n) = Suc ?L" by (simp add: eq)
    from ih have "10 * 10 ^ (?L - 1) \<le> 10 * (n div 10)" by simp
    also have "\<dots> \<le> n" by simp
    finally have lo: "10 ^ ?L \<le> n" using L by (cases ?L) simp_all
    from ih have "Suc (n div 10) \<le> 10 ^ ?L" by simp
    then have "10 * Suc (n div 10) \<le> 10 * 10 ^ ?L" by (rule mult_le_mono2)
    moreover have "n < 10 * Suc (n div 10)" by simp
    ultimately have hi: "n < 10 ^ Suc ?L" by simp
    from lo hi show ?thesis by (simp add: len)
  qed
qed

lemma natToString_length:
  assumes "1 \<le> k" and "10 ^ (k - 1) \<le> s" and "s < 10 ^ k"
  shows "length (natToString s) = k"
proof -
  let ?L = "length (natToString s)"
  have "(0::nat) < 10 ^ (k - 1)" by simp
  then have pos: "0 < s" using assms(2) by (rule less_le_trans)
  from natToString_bounds [OF pos] have b: "10 ^ (?L - 1) \<le> s" "s < 10 ^ ?L" by simp_all
  have L: "0 < ?L" by (simp add: natToString_nonempty)
  from b(1) assms(3) have "(10::nat) ^ (?L - 1) < 10 ^ k" by (rule le_less_trans)
  then have "?L - 1 < k" by (simp add: power_strict_increasing_iff)
  moreover from assms(2) b(2) have "(10::nat) ^ (k - 1) < 10 ^ ?L" by (rule le_less_trans)
  then have "k - 1 < ?L" by (simp add: power_strict_increasing_iff)
  ultimately show ?thesis using L assms(1) by simp
qed

lemma not_digit [simp]:
  "\<not> isDigit (CHR ''-'')" "\<not> isDigit (CHR ''.'')" "\<not> isDigit (CHR ''e'')" "\<not> isDigit (CHR ''+'')"
  by (simp_all add: isDigit_def)

lemma takeWhile_digits:
  assumes "list_all isDigit ds" and "r = [] \<or> \<not> isDigit (hd r)"
  shows "takeWhile isDigit (ds @ r) = ds" and "dropWhile isDigit (ds @ r) = r"
proof -
  from assms(1) have all: "\<And>x. x \<in> set ds \<Longrightarrow> isDigit x" by (simp add: list_all_iff)
  from assms(2) have r: "takeWhile isDigit r = []" "dropWhile isDigit r = r" by (cases r; simp)+
  show "takeWhile isDigit (ds @ r) = ds" using all r by (simp add: takeWhile_append2)
  show "dropWhile isDigit (ds @ r) = r" using all r by (simp add: dropWhile_append2)
qed

lemma exponentText_start: "exponentText ex = [] \<or> hd (exponentText ex) = CHR ''e''"
  by (cases ex) (simp_all add: exponentText_def)

lemma exponentText_end: "exponentOrEnd (exponentText ex)"
  by (cases ex) (simp_all add: exponentText_def exponentOrEnd_def dropSign_def natToString_nonempty natToString_digits)

lemma exponentText_value: "exponentValue (exponentText ex) = (case ex of None \<Rightarrow> 0 | Some e \<Rightarrow> e)"
proof (cases ex)
  case None
  then show ?thesis by (simp add: exponentText_def exponentValue_def)
next
  case (Some e)
  then show ?thesis
    by (cases "e < 0") (simp_all add: exponentText_def exponentValue_def decimalValue_natToString)
qed

lemma tail_start:
  "(if fp = [] then [] else ''.'' @ fp) @ exponentText ex = []
   \<or> \<not> isDigit (hd ((if fp = [] then [] else ''.'' @ fp) @ exponentText ex))"
  using exponentText_start [of ex] by (cases "fp = []") auto

lemma dropMinus_numeralText:
  assumes "ip \<noteq> []" and "list_all isDigit ip"
  shows "dropMinus (numeralText neg ip fp ex) = ip @ (if fp = [] then [] else ''.'' @ fp) @ exponentText ex"
proof (cases neg)
  case True
  then show ?thesis by (simp add: numeralText_def dropMinus_def)
next
  case False
  from assms obtain c cs where ip: "ip = c # cs" and "isDigit c" by (cases ip) auto
  then have "c \<noteq> CHR ''-''" by auto
  with False ip show ?thesis by (simp add: numeralText_def dropMinus_def)
qed

lemma dropFraction_tail:
  assumes "list_all isDigit fp"
  shows "dropFraction ((if fp = [] then [] else ''.'' @ fp) @ exponentText ex) = exponentText ex"
    and "fractionDigits ((if fp = [] then [] else ''.'' @ fp) @ exponentText ex) = fp"
proof -
  have tw: "takeWhile isDigit (fp @ exponentText ex) = fp" "dropWhile isDigit (fp @ exponentText ex) = exponentText ex"
    using assms exponentText_start [of ex] by (auto intro!: takeWhile_digits)
  show "dropFraction ((if fp = [] then [] else ''.'' @ fp) @ exponentText ex) = exponentText ex"
  proof (cases "fp = []")
    case True
    then show ?thesis using exponentText_start [of ex]
      by (cases "exponentText ex") (auto simp: dropFraction_def)
  next
    case False
    then show ?thesis by (simp add: dropFraction_def tw)
  qed
  show "fractionDigits ((if fp = [] then [] else ''.'' @ fp) @ exponentText ex) = fp"
  proof (cases "fp = []")
    case True
    then show ?thesis using exponentText_start [of ex]
      by (cases "exponentText ex") (auto simp: fractionDigits_def)
  next
    case False
    then show ?thesis by (simp add: fractionDigits_def tw)
  qed
qed

lemma numeralText_pattern:
  assumes "ip \<noteq> []" and "list_all isDigit ip" and "list_all isDigit fp"
  shows "numberPattern (numeralText neg ip fp ex)"
  unfolding numberPattern_def dropMinus_numeralText [OF assms(1,2)]
    takeWhile_digits [OF assms(2) tail_start] dropFraction_tail [OF assms(3)]
  using assms(1) by (simp add: exponentText_end)

lemma numeralText_value:
  assumes "ip \<noteq> []" and "list_all isDigit ip" and "list_all isDigit fp"
  shows "numeralValue (numeralText neg ip fp ex)
    = (if neg then - 1 else 1)
        * ((of_nat (decimalValue ip) + of_nat (decimalValue fp) / 10 ^ length fp)
            * power_int 10 (case ex of None \<Rightarrow> 0 | Some e \<Rightarrow> e))"
proof -
  have sign: "(ip @ (if fp = [] then [] else ''.'' @ fp) @ exponentText ex = numeralText neg ip fp ex) = (\<not> neg)"
    by (cases neg) (simp_all add: numeralText_def)
  show ?thesis
    unfolding numeralValue_def Let_def dropMinus_numeralText [OF assms(1,2)]
      takeWhile_digits [OF assms(2) tail_start] dropFraction_tail [OF assms(3)] exponentText_value sign
    by simp
qed

lemma no_leading_zero_after:
  assumes "t = [] \<or> hd t = CHR ''.'' \<or> hd t = CHR ''e''"
  shows "\<not> (case dropWhile (\<lambda>c. c = CHR ''0'') (''0'' @ t) of [] \<Rightarrow> False | c # r \<Rightarrow> c \<in> set ''123456789'')"
proof (cases t)
  case Nil
  then show ?thesis by simp
next
  case (Cons c r)
  with assms have "c = CHR ''.'' \<or> c = CHR ''e''" by simp
  then show ?thesis unfolding Cons by (elim disjE) simp_all
qed

lemma numeralText_no_leading_zeros:
  assumes "ip \<noteq> []" and "list_all isDigit ip" and "hd ip \<noteq> CHR ''0'' \<or> ip = ''0''"
  shows "\<not> hasLeadingZeros (numeralText neg ip fp ex)"
proof -
  let ?tail = "(if fp = [] then [] else ''.'' @ fp) @ exponentText ex"
  from assms(3) show ?thesis
  proof
    assume "hd ip \<noteq> CHR ''0''"
    with assms(1) have "takeWhile (\<lambda>c. c = CHR ''0'') (ip @ ?tail) = []"
      by (cases ip) simp_all
    then show ?thesis
      unfolding hasLeadingZeros_def dropMinus_numeralText [OF assms(1,2)] by simp
  next
    assume ip: "ip = ''0''"
    have "?tail = [] \<or> hd ?tail = CHR ''.'' \<or> hd ?tail = CHR ''e''"
      using exponentText_start [of ex] by (cases "fp = []") auto
    then have "\<not> (case dropWhile (\<lambda>c. c = CHR ''0'') (''0'' @ ?tail) of [] \<Rightarrow> False | c # r \<Rightarrow> c \<in> set ''123456789'')"
      by (rule no_leading_zero_after)
    moreover have "dropMinus (numeralText neg ''0'' fp ex) = ''0'' @ ?tail"
      using dropMinus_numeralText [OF assms(1,2), of neg fp ex] unfolding ip .
    ultimately show ?thesis
      unfolding hasLeadingZeros_def ip by simp
  qed
qed

lemma numeralText_chars:
  assumes "list_all isDigit ip" and "list_all isDigit fp"
  shows "list_all numeralChar (numeralText neg ip fp ex)"
proof -
  have "list_all numeralChar ds" if "list_all isDigit ds" for ds
    using that by (simp add: list_all_iff numeralChar_def)
  with assms natToString_digits show ?thesis
    by (cases ex) (simp_all add: numeralText_def exponentText_def numeralChar_def)
qed

lemma numeralChar_not_special: "numeralChar c \<Longrightarrow> \<not> specialChar c"
proof -
  assume "numeralChar c"
  then consider "isDigit c" | "c = CHR ''-''" | "c = CHR ''.''" | "c = CHR ''e''" | "c = CHR ''+''"
    unfolding numeralChar_def by blast
  then show ?thesis
  proof cases
    case 1
    then have "c = CHR ''0'' \<or> c = CHR ''1'' \<or> c = CHR ''2'' \<or> c = CHR ''3'' \<or> c = CHR ''4''
        \<or> c = CHR ''5'' \<or> c = CHR ''6'' \<or> c = CHR ''7'' \<or> c = CHR ''8'' \<or> c = CHR ''9''"
      by (simp add: isDigit_def)
    then show ?thesis by (elim disjE) (simp_all add: specialChar_def)
  qed (simp_all add: specialChar_def)
qed

lemma numeralChar_plain: "list_all numeralChar s \<Longrightarrow> plainText s"
  using numeralChar_not_special by (auto simp: plainText_def list_all_iff list_ex_iff)

lemma numeralChar_not_space: "numeralChar c \<Longrightarrow> \<not> isWhiteSpace c"
proof -
  assume "numeralChar c"
  then consider "isDigit c" | "c = CHR ''-''" | "c = CHR ''.''" | "c = CHR ''e''" | "c = CHR ''+''"
    unfolding numeralChar_def by blast
  then show ?thesis
  proof cases
    case 1
    then have "c = CHR ''0'' \<or> c = CHR ''1'' \<or> c = CHR ''2'' \<or> c = CHR ''3'' \<or> c = CHR ''4''
        \<or> c = CHR ''5'' \<or> c = CHR ''6'' \<or> c = CHR ''7'' \<or> c = CHR ''8'' \<or> c = CHR ''9''"
      by (simp add: isDigit_def)
    then show ?thesis by (elim disjE) (simp_all add: isWhiteSpace_def)
  qed (simp_all add: isWhiteSpace_def)
qed

lemma numeralChar_trim: "list_all numeralChar s \<Longrightarrow> trim s = s"
proof -
  assume a: "list_all numeralChar s"
  have ws: "\<not> isWhiteSpace c" if "numeralChar c" for c
    using that by (rule numeralChar_not_space)
  have keep: "dropWhile isWhiteSpace t = t" if "list_all numeralChar t" for t
    using that ws by (cases t) simp_all
  from a have "list_all numeralChar (rev s)" by (simp add: list_all_iff)
  with a show ?thesis by (simp add: trim_def keep)
qed

lemma decimalValue_Nil: "decimalValue [] = 0"
  by (simp add: decimalValue_def)

lemma isDigit_zero: "isDigit (CHR ''0'')"
  by (simp add: isDigit_def)

lemma split_value:
  "(of_nat (decimalValue (take i ds)) :: rat) + of_nat (decimalValue (drop i ds)) / 10 ^ length (drop i ds)
     = of_nat (decimalValue ds) / 10 ^ length (drop i ds)"
proof -
  have "decimalValue ds = decimalValue (take i ds @ drop i ds)" by simp
  also have "\<dots> = decimalValue (take i ds) * 10 ^ length (drop i ds) + decimalValue (drop i ds)"
    by (rule decimalValue_append)
  finally have "(of_nat (decimalValue ds) :: rat)
      = of_nat (decimalValue (take i ds)) * 10 ^ length (drop i ds) + of_nat (decimalValue (drop i ds))"
    by simp
  then show ?thesis by (simp add: field_simps)
qed

lemma pow10_nonneg: "0 \<le> m \<Longrightarrow> power_int (10::rat) m = 10 ^ nat m"
  by (simp add: power_int_def)

lemma pow10_neg: "0 \<le> m \<Longrightarrow> power_int (10::rat) (- m) = 1 / 10 ^ nat m"
  by (simp add: power_int_minus_divide pow10_nonneg)

lemma zeros_digits: "list_all isDigit (replicate z (CHR ''0''))"
  by (induction z) (simp_all add: isDigit_zero)

lemma format_integer:
  assumes "0 < s" and "k = length (natToString s)" and "int k \<le> n" and "n \<le> 21"
  shows "numeralParts (formatDigits (s, n, k)) (natToString s @ replicate (nat (n - int k)) (CHR ''0'')) [] None
           (of_nat s * power_int 10 (n - int k))"
proof -
  let ?ds = "natToString s" and ?z = "replicate (nat (n - int k)) (CHR ''0'')"
  have "formatDigits (s, n, k) = numeralText False (?ds @ ?z) [] None"
    using assms(3,4) by (simp add: formatDigits_def numeralText_def exponentText_def Let_def)
  moreover have "list_all isDigit (?ds @ ?z)"
    by (simp add: natToString_digits zeros_digits)
  moreover have "hd (?ds @ ?z) \<noteq> CHR ''0''"
    using hd_natToString [OF assms(1)] by (simp add: natToString_nonempty)
  moreover have "(of_nat (decimalValue (?ds @ ?z)) :: rat) = of_nat s * power_int 10 (n - int k)"
    using assms(3) by (simp add: decimalValue_append decimalValue_zeros decimalValue_natToString pow10_nonneg)
  ultimately show ?thesis
    by (simp add: numeralParts_def natToString_nonempty decimalValue_Nil)
qed

lemma format_fraction:
  assumes "0 < s" and "k = length (natToString s)" and "\<not> int k \<le> n" and "0 < n" and "n \<le> 21"
  shows "numeralParts (formatDigits (s, n, k)) (take (nat n) (natToString s)) (drop (nat n) (natToString s)) None
           (of_nat s * power_int 10 (n - int k))"
proof -
  let ?ds = "natToString s"
  let ?ip = "take (nat n) ?ds" and ?fp = "drop (nat n) ?ds"
  have "nat n < length ?ds" using assms(2,3,4) by linarith
  then have "?fp \<noteq> []" by simp
  then have "formatDigits (s, n, k) = numeralText False ?ip ?fp None"
    using assms(3,4,5) by (simp add: formatDigits_def numeralText_def exponentText_def Let_def)
  moreover have "?ip \<noteq> []" using assms(4) by (simp add: natToString_nonempty)
  moreover have "list_all isDigit ?ip" "list_all isDigit ?fp"
    using natToString_digits [of s] by (auto simp: list_all_iff dest: in_set_takeD in_set_dropD)
  moreover have "hd ?ip \<noteq> CHR ''0''"
    using hd_natToString [OF assms(1)] assms(4) by (cases ?ds) (simp_all add: take_Cons')
  moreover have "(of_nat (decimalValue ?ip) :: rat) + of_nat (decimalValue ?fp) / 10 ^ length ?fp
      = of_nat s * power_int 10 (n - int k)"
  proof -
    have len: "length ?fp = nat (int k - n)" using assms(2,4) by simp
    have "n - int k = - (int k - n)" by simp
    then have p: "power_int (10::rat) (n - int k) = 1 / 10 ^ nat (int k - n)"
      using assms(3) pow10_neg [of "int k - n"] by simp
    have "(of_nat (decimalValue ?ip) :: rat) + of_nat (decimalValue ?fp) / 10 ^ length ?fp
        = of_nat s / 10 ^ length ?fp"
      using split_value [of "nat n" ?ds] by (simp only: decimalValue_natToString)
    also have "\<dots> = of_nat s * power_int 10 (n - int k)"
      by (simp only: p len) simp
    finally show ?thesis .
  qed
  ultimately show ?thesis
    by (simp add: numeralParts_def)
qed

lemma format_small:
  assumes "0 < s" and "k = length (natToString s)" and "\<not> int k \<le> n" and "\<not> 0 < n" and "- 6 < n"
  shows "numeralParts (formatDigits (s, n, k)) ''0'' (replicate (nat (- n)) (CHR ''0'') @ natToString s) None
           (of_nat s * power_int 10 (n - int k))"
proof -
  let ?ds = "natToString s"
  let ?fp = "replicate (nat (- n)) (CHR ''0'') @ ?ds"
  have "?fp \<noteq> []" by (simp add: natToString_nonempty)
  then have "formatDigits (s, n, k) = numeralText False ''0'' ?fp None"
    using assms(3,4,5) by (simp add: formatDigits_def numeralText_def exponentText_def Let_def)
  moreover have "list_all isDigit ''0''" by (simp add: isDigit_zero)
  moreover have "list_all isDigit ?fp"
    by (simp add: natToString_digits zeros_digits)
  moreover have "(of_nat (decimalValue ''0'') :: rat) + of_nat (decimalValue ?fp) / 10 ^ length ?fp
      = of_nat s * power_int 10 (n - int k)"
  proof -
    have len: "length ?fp = nat (int k - n)" using assms(2,4) by simp
    have "n - int k = - (int k - n)" by simp
    then have "power_int (10::rat) (n - int k) = 1 / 10 ^ nat (int k - n)"
      using assms(3) pow10_neg [of "int k - n"] by simp
    moreover have "decimalValue ?fp = s"
      by (simp add: decimalValue_append decimalValue_zeros decimalValue_natToString)
    moreover have "decimalValue ''0'' = 0" by (simp add: decimalValue_def)
    ultimately show ?thesis by (simp only: len) simp
  qed
  ultimately show ?thesis
    by (simp add: numeralParts_def)
qed

lemma format_exponent_one:
  assumes "0 < s" and "k = length (natToString s)" and "\<not> (int k \<le> n \<and> n \<le> 21)"
    and "\<not> (0 < n \<and> n \<le> 21)" and "\<not> (- 6 < n \<and> n \<le> 0)" and "k = 1"
  shows "numeralParts (formatDigits (s, n, k)) (natToString s) [] (Some (n - 1))
           (of_nat s * power_int 10 (n - int k))"
proof -
  let ?ds = "natToString s"
  have "formatDigits (s, n, k)
      = (if k = 1 then ?ds @ ''e'' @ (if n - 1 < 0 then ''-'' else ''+'') @ natToString (nat \<bar>n - 1\<bar>)
         else take 1 ?ds @ ''.'' @ drop 1 ?ds @ ''e'' @ (if n - 1 < 0 then ''-'' else ''+'') @ natToString (nat \<bar>n - 1\<bar>))"
    by (simp only: formatDigits_def prod.case Let_def assms(3,4,5) if_False)
  then have "formatDigits (s, n, k) = numeralText False ?ds [] (Some (n - 1))"
    using assms(6) by (simp add: numeralText_def exponentText_def)
  then show ?thesis
    using hd_natToString [OF assms(1)] assms(6)
    by (simp add: numeralParts_def natToString_nonempty natToString_digits decimalValue_natToString decimalValue_Nil)
qed

lemma format_exponent_many:
  assumes "0 < s" and "k = length (natToString s)" and "\<not> (int k \<le> n \<and> n \<le> 21)"
    and "\<not> (0 < n \<and> n \<le> 21)" and "\<not> (- 6 < n \<and> n \<le> 0)" and "k \<noteq> 1"
  shows "numeralParts (formatDigits (s, n, k)) (take 1 (natToString s)) (drop 1 (natToString s)) (Some (n - 1))
           (of_nat s * power_int 10 (n - int k))"
proof -
  let ?ds = "natToString s"
  let ?ip = "take 1 ?ds" and ?fp = "drop 1 ?ds"
  have "k \<noteq> 0" using assms(2) natToString_nonempty [of s] by simp
  with assms(6) have k: "2 \<le> k" by arith
  then have fp: "?fp \<noteq> []" using assms(2) by simp
  have "formatDigits (s, n, k)
      = (if k = 1 then ?ds @ ''e'' @ (if n - 1 < 0 then ''-'' else ''+'') @ natToString (nat \<bar>n - 1\<bar>)
         else take 1 ?ds @ ''.'' @ drop 1 ?ds @ ''e'' @ (if n - 1 < 0 then ''-'' else ''+'') @ natToString (nat \<bar>n - 1\<bar>))"
    by (simp only: formatDigits_def prod.case Let_def assms(3,4,5) if_False)
  then have "formatDigits (s, n, k) = numeralText False ?ip ?fp (Some (n - 1))"
    using assms(6) fp by (simp add: numeralText_def exponentText_def)
  moreover have "?ip \<noteq> []" by (simp add: natToString_nonempty)
  moreover have "list_all isDigit ?ip" "list_all isDigit ?fp"
    using natToString_digits [of s] by (auto simp: list_all_iff dest: in_set_takeD in_set_dropD)
  moreover have "hd ?ip \<noteq> CHR ''0''"
    using hd_natToString [OF assms(1)] by (cases ?ds) simp_all
  moreover have "((of_nat (decimalValue ?ip) :: rat) + of_nat (decimalValue ?fp) / 10 ^ length ?fp)
      * power_int 10 (n - 1) = of_nat s * power_int 10 (n - int k)"
  proof -
    have len: "length ?fp = nat (int k - 1)" using assms(2) k by simp
    have "power_int (10::rat) (n - int k) = power_int 10 (n - 1) * power_int 10 (- (int k - 1))"
      by (simp add: power_int_add [symmetric])
    also have "power_int (10::rat) (- (int k - 1)) = 1 / 10 ^ nat (int k - 1)"
      using k by (intro pow10_neg) simp
    finally have p: "power_int (10::rat) (n - int k) = power_int 10 (n - 1) * (1 / 10 ^ nat (int k - 1))" .
    have "(of_nat (decimalValue ?ip) :: rat) + of_nat (decimalValue ?fp) / 10 ^ length ?fp
        = of_nat s / 10 ^ length ?fp"
      using split_value [of 1 ?ds] by (simp only: decimalValue_natToString)
    then have "((of_nat (decimalValue ?ip) :: rat) + of_nat (decimalValue ?fp) / 10 ^ length ?fp) * power_int 10 (n - 1)
        = of_nat s / 10 ^ nat (int k - 1) * power_int 10 (n - 1)"
      by (simp only: len)
    also have "\<dots> = of_nat s * power_int 10 (n - int k)"
      by (simp only: p) simp
    finally show ?thesis .
  qed
  ultimately show ?thesis
    by (simp add: numeralParts_def)
qed

lemma formatDigits_parts:
  assumes "0 < s" and "k = length (natToString s)"
  shows "\<exists>ip fp ex. numeralParts (formatDigits (s, n, k)) ip fp ex (of_nat s * power_int 10 (n - int k))"
proof -
  consider "int k \<le> n \<and> n \<le> 21" | "\<not> int k \<le> n" "0 < n" "n \<le> 21" | "\<not> int k \<le> n" "\<not> 0 < n" "- 6 < n"
    | "\<not> (int k \<le> n \<and> n \<le> 21)" "\<not> (0 < n \<and> n \<le> 21)" "\<not> (- 6 < n \<and> n \<le> 0)" "k = 1"
    | "\<not> (int k \<le> n \<and> n \<le> 21)" "\<not> (0 < n \<and> n \<le> 21)" "\<not> (- 6 < n \<and> n \<le> 0)" "k \<noteq> 1"
    by linarith
  then show ?thesis
  proof cases
    case 1
    then show ?thesis using format_integer [OF assms] by blast
  next
    case 2
    then show ?thesis using format_fraction [OF assms] by blast
  next
    case 3
    then show ?thesis using format_small [OF assms] by blast
  next
    case 4
    then show ?thesis using format_exponent_one [OF assms] by blast
  next
    case 5
    then show ?thesis using format_exponent_many [OF assms] by blast
  qed
qed

lemma numeralParts_reads:
  assumes "numeralParts str ip fp ex v"
  shows "numberPattern str" and "\<not> hasLeadingZeros str" and "list_all numeralChar str"
    and "numeralValue str = v"
    and "numberPattern (''-'' @ str)" and "\<not> hasLeadingZeros (''-'' @ str)"
    and "list_all numeralChar (''-'' @ str)" and "numeralValue (''-'' @ str) = - v"
proof -
  from assms have shape: "str = numeralText False ip fp ex" and ip: "ip \<noteq> []" "list_all isDigit ip"
    and fp: "list_all isDigit fp" and lead: "hd ip \<noteq> CHR ''0'' \<or> ip = ''0''"
    and v: "(of_nat (decimalValue ip) + of_nat (decimalValue fp) / 10 ^ length fp)
            * power_int 10 (case ex of None \<Rightarrow> 0 | Some e \<Rightarrow> e) = v"
    by (simp_all add: numeralParts_def)
  have neg: "''-'' @ str = numeralText True ip fp ex"
    by (simp add: shape numeralText_def)
  show "numberPattern str" unfolding shape using ip fp by (rule numeralText_pattern)
  show "numberPattern (''-'' @ str)" unfolding neg using ip fp by (rule numeralText_pattern)
  show "\<not> hasLeadingZeros str" unfolding shape using ip lead by (rule numeralText_no_leading_zeros)
  show "\<not> hasLeadingZeros (''-'' @ str)" unfolding neg using ip lead by (rule numeralText_no_leading_zeros)
  show "list_all numeralChar str" unfolding shape using ip(2) fp by (rule numeralText_chars)
  show "list_all numeralChar (''-'' @ str)" unfolding neg using ip(2) fp by (rule numeralText_chars)
  show "numeralValue str = v"
    unfolding shape numeralText_value [OF ip fp] using v by simp
  show "numeralValue (''-'' @ str) = - v"
    unfolding neg numeralText_value [OF ip fp] using v by simp
qed

section \<open>Rounding to a double and the digits of a number\<close>

lemma floorLog_bounds:
  "2 \<le> b \<Longrightarrow> 1 \<le> n \<Longrightarrow> b ^ floorLog b n \<le> n \<and> n < b ^ Suc (floorLog b n)"
proof (induction b n rule: floorLog.induct)
  case (1 b n)
  show ?case
  proof (cases "n < b")
    case True
    then have "floorLog b n = 0" by (subst floorLog.simps) simp
    with True 1(3) show ?thesis by simp
  next
    case False
    with 1(2) have rec: "floorLog b n = Suc (floorLog b (n div b))" by (subst floorLog.simps) simp
    let ?f = "floorLog b (n div b)"
    from False 1(2) have "1 \<le> n div b"
      by (simp add: Suc_le_eq div_greater_zero_iff)
    with 1 False have ih: "b ^ ?f \<le> n div b \<and> n div b < b ^ Suc ?f" by simp
    from ih have "b * b ^ ?f \<le> b * (n div b)" by simp
    also have "\<dots> \<le> n" by simp
    finally have lo: "b ^ Suc ?f \<le> n" by simp
    from ih have "Suc (n div b) \<le> b ^ Suc ?f" by simp
    then have "b * Suc (n div b) \<le> b * b ^ Suc ?f" by (rule mult_le_mono2)
    moreover have "n < b * Suc (n div b)"
      using 1(2) by (metis dividend_less_times_div mult.commute mult_Suc_right add.commute less_le_trans zero_less_numeral less_eq_nat.simps)
    ultimately have hi: "n < b ^ Suc (Suc ?f)" by simp
    from lo hi show ?thesis by (simp only: rec)
  qed
qed

lemma power_int_exp_less:
  fixes a :: rat
  assumes "1 < a" and "power_int a m < power_int a n"
  shows "m < n"
proof (rule ccontr)
  assume "\<not> m < n"
  then have "n \<le> m" by simp
  then have "power_int a n \<le> power_int a m" using assms(1) by (intro power_int_increasing) simp_all
  with assms(2) show False by simp
qed

lemma ilog_bounds:
  assumes b: "2 \<le> b" and a: "0 < a"
  shows "power_int (of_nat b) (ilog b a) \<le> a" and "a < power_int (of_nat b) (ilog b a + 1)"
proof -
  obtain p d where q: "quotient_of a = (p, d)" by (cases "quotient_of a") auto
  then have d: "0 < d" and frac: "a = of_int p / of_int d"
    by (rule quotient_of_denom_pos, rule quotient_of_div)
  from a d frac have p: "0 < p" by (simp add: zero_less_divide_iff)
  let ?B = "of_nat b :: rat"
  let ?lp = "floorLog b (nat p)" and ?ld = "floorLog b (nat d)"
  let ?l = "int ?lp - int ?ld"
  have B: "1 < ?B" "?B \<noteq> 0" "0 < ?B" using b by simp_all
  from p have "1 \<le> nat p" by simp
  from floorLog_bounds [OF b this] have "b ^ ?lp \<le> nat p" "nat p < b ^ Suc ?lp" by simp_all
  then have "(of_nat (b ^ ?lp) :: rat) \<le> of_nat (nat p)" "(of_nat (nat p) :: rat) < of_nat (b ^ Suc ?lp)"
    by (simp_all only: of_nat_le_iff of_nat_less_iff)
  with p have pb: "?B ^ ?lp \<le> of_int p" "(of_int p :: rat) < ?B ^ Suc ?lp" by simp_all
  from d have "1 \<le> nat d" by simp
  from floorLog_bounds [OF b this] have "b ^ ?ld \<le> nat d" "nat d < b ^ Suc ?ld" by simp_all
  then have "(of_nat (b ^ ?ld) :: rat) \<le> of_nat (nat d)" "(of_nat (nat d) :: rat) < of_nat (b ^ Suc ?ld)"
    by (simp_all only: of_nat_le_iff of_nat_less_iff)
  with d have db: "?B ^ ?ld \<le> of_int d" "(of_int d :: rat) < ?B ^ Suc ?ld" by simp_all
  have dpos: "(0::rat) < of_int d" using d by simp
  have up: "power_int ?B (?l + 1) = ?B ^ Suc ?lp / ?B ^ ?ld"
  proof -
    have "?l + 1 = int (Suc ?lp) - int ?ld" by simp
    then have "power_int ?B (?l + 1) = power_int ?B (int (Suc ?lp) - int ?ld)" by (simp only:)
    also have "\<dots> = power_int ?B (int (Suc ?lp)) / power_int ?B (int ?ld)"
      using B(2) by (intro power_int_diff) simp
    also have "\<dots> = ?B ^ Suc ?lp / ?B ^ ?ld" by (simp only: power_int_of_nat)
    finally show ?thesis .
  qed
  have down: "power_int ?B (?l - 1) = ?B ^ ?lp / ?B ^ Suc ?ld"
  proof -
    have "?l - 1 = int ?lp - int (Suc ?ld)" by simp
    then have "power_int ?B (?l - 1) = power_int ?B (int ?lp - int (Suc ?ld))" by (simp only:)
    also have "\<dots> = power_int ?B (int ?lp) / power_int ?B (int (Suc ?ld))"
      using B(2) by (intro power_int_diff) simp
    also have "\<dots> = ?B ^ ?lp / ?B ^ Suc ?ld" by (simp only: power_int_of_nat)
    finally show ?thesis .
  qed
  have upper: "a < power_int ?B (?l + 1)"
  proof -
    have "a < ?B ^ Suc ?lp / of_int d" unfolding frac using pb(2) dpos by (simp add: divide_strict_right_mono)
    also have "\<dots> \<le> ?B ^ Suc ?lp / ?B ^ ?ld"
      using db(1) B(3) dpos by (intro divide_left_mono) (simp_all add: zero_less_mult_iff)
    finally show ?thesis by (simp only: up)
  qed
  have lower: "power_int ?B (?l - 1) < a"
  proof -
    have "?B ^ ?lp / ?B ^ Suc ?ld < ?B ^ ?lp / of_int d"
      using db(2) B(3) dpos by (intro divide_strict_left_mono) (simp_all add: zero_less_mult_iff)
    also have "\<dots> \<le> a" unfolding frac using pb(1) dpos by (simp add: divide_right_mono)
    finally show ?thesis by (simp only: down)
  qed
  have il: "ilog b a = (if power_int ?B ?l \<le> a then ?l else ?l - 1)"
    by (simp add: ilog_def q Let_def)
  show "power_int ?B (ilog b a) \<le> a"
    using lower by (simp add: il)
  show "a < power_int ?B (ilog b a + 1)"
    using upper by (simp add: il)
qed

lemma isInteger_of_int: "isInteger (of_int m)"
  by (simp add: isInteger_def)

lemma isInteger_floor: "isInteger r \<Longrightarrow> of_int \<lfloor>r\<rfloor> = r"
  by (simp add: isInteger_def)

lemma roundHalfEven_integer:
  assumes "isInteger r"
  shows "of_int (roundHalfEven r) = r"
proof -
  from assms have f: "of_int \<lfloor>r\<rfloor> = r" by (rule isInteger_floor)
  have "r - of_int \<lfloor>r\<rfloor> = 0" by (simp only: f diff_self)
  then have "roundHalfEven r = \<lfloor>r\<rfloor>" unfolding roundHalfEven_def Let_def by simp
  with f show ?thesis by simp
qed

lemma roundToDouble_fixed:
  assumes "isDouble q"
  shows "roundToDouble q = Fin q"
proof (cases "q = 0")
  case True
  then show ?thesis by (simp add: roundToDouble_def)
next
  case False
  let ?a = "\<bar>q\<bar>"
  let ?e = "ulpExponent ?a"
  from assms False have small: "?a < 2 ^ 1024" and int: "isInteger (?a / power_int 2 ?e)"
    by (simp_all add: isDouble_def)
  have "of_int (roundHalfEven (?a / power_int 2 ?e)) * power_int 2 ?e = ?a / power_int 2 ?e * power_int 2 ?e"
    by (simp only: roundHalfEven_integer [OF int])
  also have "\<dots> = ?a" by simp
  finally have r: "of_int (roundHalfEven (?a / power_int 2 ?e)) * power_int 2 ?e = ?a" .
  from small have "\<not> 2 ^ 1024 \<le> ?a" by simp
  with False show ?thesis
    unfolding roundToDouble_def Let_def r by simp
qed

lemma roundToDouble_minus:
  assumes "0 < v" and "roundToDouble v = Fin x"
  shows "roundToDouble (- v) = Fin (- x)"
proof -
  let ?r = "of_int (roundHalfEven (v / power_int 2 (ulpExponent v))) * power_int 2 (ulpExponent v)"
  have pos: "roundToDouble v = (if (2::rat) ^ 1024 \<le> ?r then PosInf else Fin ?r)"
    using assms(1) by (simp add: roundToDouble_def Let_def)
  have neg: "roundToDouble (- v) = (if (2::rat) ^ 1024 \<le> ?r then NegInf else Fin (- ?r))"
    using assms(1) by (simp add: roundToDouble_def Let_def)
  from assms(2) pos have "\<not> (2::rat) ^ 1024 \<le> ?r" and "x = ?r" by (auto split: if_splits)
  with neg show ?thesis by simp
qed

lemma isDouble_minus: "isDouble (- q) = isDouble q"
  by (simp add: isDouble_def)

lemma ulpExponent_lower: "- 1074 \<le> ulpExponent a"
  by (simp add: ulpExponent_def)

lemma double_decimal:
  assumes "isDouble x" and "0 < x"
  shows "\<exists>j < 1075. isInteger (x * 10 ^ j)"
proof -
  let ?e = "ulpExponent x"
  from assms have int: "isInteger (x / power_int 2 ?e)" by (simp add: isDouble_def)
  define m where "m = \<lfloor>x / power_int 2 ?e\<rfloor>"
  from int have "of_int m = x / power_int 2 ?e" unfolding m_def by (rule isInteger_floor)
  then have x: "x = of_int m * power_int 2 ?e" by simp
  show ?thesis
  proof (cases "0 \<le> ?e")
    case True
    then have "power_int (2::rat) ?e = of_int (2 ^ nat ?e)" by (simp add: power_int_def)
    with x have "x * 10 ^ 0 = of_int (m * 2 ^ nat ?e)" by simp
    then have "isInteger (x * 10 ^ 0)" by (simp only: isInteger_of_int)
    then show ?thesis by (intro exI [of _ 0]) simp
  next
    case False
    define j where "j = nat (- ?e)"
    from False ulpExponent_lower [of x] have j: "j < 1075" and e: "?e = - int j"
      by (simp_all add: j_def)
    have "power_int (2::rat) ?e = 1 / 2 ^ j"
      unfolding e by (simp add: power_int_minus_divide)
    with x have "x * 10 ^ j = of_int m * (1 / 2 ^ j) * (2 * 5) ^ j" by simp
    also have "\<dots> = of_int m * 5 ^ j" by (simp only: power_mult_distrib) simp
    also have "\<dots> = of_int (m * 5 ^ j)" by simp
    finally have "isInteger (x * 10 ^ j)" by (simp only: isInteger_of_int)
    with j show ?thesis by blast
  qed
qed

lemma exactDigits_denotes:
  assumes "isDouble x" and "0 < x"
  shows "denotes x (exactDigits x)"
proof -
  from double_decimal [OF assms] obtain j0 where "j0 < 1075" and "isInteger (x * 10 ^ j0)" by blast
  then have "find (\<lambda>j. isInteger (x * 10 ^ j)) [0..<1075] \<noteq> None"
    by (auto simp: find_None_iff)
  then obtain j where found: "find (\<lambda>j. isInteger (x * 10 ^ j)) [0..<1075] = Some j" by blast
  then have int: "isInteger (x * 10 ^ j)" by (auto simp: find_Some_iff)
  define s where "s = nat \<lfloor>x * 10 ^ j\<rfloor>"
  define k where "k = length (natToString s)"
  have ex: "exactDigits x = (s, int k - int j, k)"
    by (simp add: exactDigits_def found s_def k_def Let_def)
  from assms(2) have scaled: "0 < x * 10 ^ j" by simp
  from int have fl: "of_int \<lfloor>x * 10 ^ j\<rfloor> = x * 10 ^ j" by (rule isInteger_floor)
  with scaled have "0 < \<lfloor>x * 10 ^ j\<rfloor>" by (metis of_int_0_less_iff)
  then have pos: "0 < s" and s: "(of_nat s :: rat) = x * 10 ^ j"
    using fl by (simp_all add: s_def)
  from natToString_bounds [OF pos] have b: "10 ^ (k - 1) \<le> s" "s < 10 ^ k" by (simp_all add: k_def)
  have k: "1 \<le> k" using natToString_nonempty [of s] by (cases "natToString s") (simp_all add: k_def)
  have "digitsValue (s, int k - int j, k) = x * 10 ^ j * power_int 10 (- int j)"
    by (simp add: digitsValue_def s)
  also have "\<dots> = x" by (simp add: power_int_minus_divide)
  finally have "digitsValue (s, int k - int j, k) = x" .
  with roundToDouble_fixed [OF assms(1)] have "roundToDouble (digitsValue (s, int k - int j, k)) = Fin x"
    by simp
  with k b show ?thesis unfolding ex by (simp add: denotes_def)
qed

lemma closest_member: "closest x t ts \<in> set (t # ts)"
proof (induction ts arbitrary: t)
  case Nil
  show ?case by simp
next
  case (Cons u us)
  let ?t' = "if \<bar>digitsValue u - x\<bar> < \<bar>digitsValue t - x\<bar>
           \<or> (\<bar>digitsValue u - x\<bar> = \<bar>digitsValue t - x\<bar> \<and> even (fst u)) then u else t"
  have "closest x t (u # us) = closest x ?t' us" by simp
  moreover have "closest x ?t' us \<in> set (?t' # us)" by (rule Cons.IH)
  ultimately show ?case by auto
qed

lemma shortest_denotes:
  assumes "denotes x (exactDigits x)"
  shows "denotes x (shortest fuel x k)"
proof (induction fuel arbitrary: k)
  case 0
  from assms show ?case by simp
next
  case (Suc fuel)
  show ?case
  proof (cases "filter (denotes x) (candidates x k)")
    case Nil
    then show ?thesis using Suc.IH [of "Suc k"] by simp
  next
    case (Cons t ts)
    have "closest x t ts \<in> set (t # ts)" by (rule closest_member)
    also have "set (t # ts) = set (filter (denotes x) (candidates x k))" by (simp only: Cons)
    finally have "denotes x (closest x t ts)" by simp
    with Cons show ?thesis by simp
  qed
qed

lemma shortestDigits_denotes:
  assumes "isDouble x" and "0 < x"
  shows "denotes x (shortestDigits x)"
proof -
  obtain s n k where "exactDigits x = (s, n, k)" by (cases "exactDigits x") auto
  then have "shortestDigits x = shortest (k - 1) x 1" by (simp add: shortestDigits_def)
  then show ?thesis using shortest_denotes [OF exactDigits_denotes [OF assms]] by simp
qed

lemma formatDigits_reads:
  assumes "denotes x t"
  shows "numberPattern (formatDigits t)" and "\<not> hasLeadingZeros (formatDigits t)"
    and "list_all numeralChar (formatDigits t)"
    and "numeralValue (formatDigits t) = digitsValue t"
    and "numberPattern (''-'' @ formatDigits t)" and "\<not> hasLeadingZeros (''-'' @ formatDigits t)"
    and "list_all numeralChar (''-'' @ formatDigits t)"
    and "numeralValue (''-'' @ formatDigits t) = - digitsValue t"
    and "0 < digitsValue t"
proof -
  obtain s n k where t: "t = (s, n, k)" by (cases t) auto
  from assms have k: "1 \<le> k" and lo: "10 ^ (k - 1) \<le> s" and hi: "s < 10 ^ k"
    by (simp_all add: t denotes_def)
  have "(0::nat) < 10 ^ (k - 1)" by simp
  then have pos: "0 < s" using lo by (rule less_le_trans)
  have len: "k = length (natToString s)" using natToString_length [OF k lo hi] by simp
  from formatDigits_parts [OF pos len, of n] obtain ip fp ex
    where parts: "numeralParts (formatDigits t) ip fp ex (digitsValue t)"
    unfolding t digitsValue_def by auto
  note reads = numeralParts_reads [OF parts]
  show "numberPattern (formatDigits t)" by (rule reads)
  show "\<not> hasLeadingZeros (formatDigits t)" by (rule reads)
  show "list_all numeralChar (formatDigits t)" by (rule reads)
  show "numeralValue (formatDigits t) = digitsValue t" by (rule reads)
  show "numberPattern (''-'' @ formatDigits t)" by (rule reads)
  show "\<not> hasLeadingZeros (''-'' @ formatDigits t)" by (rule reads)
  show "list_all numeralChar (''-'' @ formatDigits t)" by (rule reads)
  show "numeralValue (''-'' @ formatDigits t) = - digitsValue t" by (rule reads)
  show "0 < digitsValue t" using pos by (simp add: t digitsValue_def)
qed

lemma number_reads_back:
  assumes "isDouble q"
  shows "readsBackAs StringToNumber Number_toString q"
proof -
  consider "q = 0" | "0 < q" | "q < 0" by linarith
  then show ?thesis
  proof cases
    case 1
    have "Number_toString q = ''0''" by (simp add: 1 Number_toString_def)
    moreover have "plainText ''0''" by (simp add: plainText_def specialChar_def)
    moreover have "trim ''0'' = ''0''" by (simp add: trim_def isWhiteSpace_def)
    moreover have "numberPattern ''0''"
      by (simp add: numberPattern_def dropMinus_def dropFraction_def exponentOrEnd_def isDigit_def)
    moreover have "\<not> hasLeadingZeros ''0''" by (simp add: hasLeadingZeros_def dropMinus_def)
    moreover have "numeralValue ''0'' = 0"
      by (simp add: numeralValue_def dropMinus_def dropFraction_def fractionDigits_def exponentValue_def
          decimalValue_def isDigit_def)
    ultimately show ?thesis
      by (simp add: readsBackAs_def StringToNumber_def roundToDouble_def 1)
  next
    case 2
    let ?t = "shortestDigits q"
    from assms 2 have d: "denotes q ?t" by (rule shortestDigits_denotes)
    note reads = formatDigits_reads [OF d]
    have str: "Number_toString q = formatDigits ?t" using 2 by (simp add: Number_toString_def)
    have tr: "trim (formatDigits ?t) = formatDigits ?t" using reads(3) by (rule numeralChar_trim)
    have "roundToDouble (digitsValue ?t) = Fin q" using d by (cases ?t) (simp add: denotes_def)
    then have "StringToNumber (formatDigits ?t) = Fin q"
      by (simp only: StringToNumber_def reads(1,4) if_True)
    then show ?thesis
      unfolding readsBackAs_def str tr using reads(1,2) numeralChar_plain [OF reads(3)] by simp
  next
    case 3
    let ?t = "shortestDigits (- q)"
    from assms have "isDouble (- q)" by (simp only: isDouble_minus)
    moreover from 3 have "0 < - q" by simp
    ultimately have d: "denotes (- q) ?t" by (rule shortestDigits_denotes)
    note reads = formatDigits_reads [OF d]
    have str: "Number_toString q = ''-'' @ formatDigits ?t" using 3 by (simp add: Number_toString_def)
    have tr: "trim (''-'' @ formatDigits ?t) = ''-'' @ formatDigits ?t" using reads(7) by (rule numeralChar_trim)
    have "roundToDouble (digitsValue ?t) = Fin (- q)" using d by (cases ?t) (simp add: denotes_def)
    with reads(9) have "roundToDouble (- digitsValue ?t) = Fin (- (- q))" by (rule roundToDouble_minus)
    then have "StringToNumber (''-'' @ formatDigits ?t) = Fin q"
      by (simp only: StringToNumber_def reads(5,8) if_True) simp
    then show ?thesis
      unfolding readsBackAs_def str tr using reads(5,6) numeralChar_plain [OF reads(7)] by simp
  qed
qed

lemma isDouble_iff:
  "isDouble q = (\<exists>m e. m < 2 ^ 53 \<and> - 1074 \<le> e \<and> e \<le> 971 \<and> \<bar>q\<bar> = of_nat m * power_int 2 e)"
proof
  assume dbl: "isDouble q"
  show "\<exists>m e. m < 2 ^ 53 \<and> - 1074 \<le> e \<and> e \<le> 971 \<and> \<bar>q\<bar> = of_nat m * power_int 2 e"
  proof (cases "q = 0")
    case True
    then show ?thesis by (intro exI [of _ 0]) simp
  next
    case False
    let ?a = "\<bar>q\<bar>"
    let ?e = "ulpExponent ?a"
    from False have a: "0 < ?a" by simp
    from dbl False have small: "?a < 2 ^ 1024" and int: "isInteger (?a / power_int 2 ?e)"
      by (simp_all add: isDouble_def)
    have two: "(of_nat 2 :: rat) = 2" by simp
    from ilog_bounds [OF _ a, of 2] have lo: "power_int 2 (ilog 2 ?a) \<le> ?a"
      and hi: "?a < power_int 2 (ilog 2 ?a + 1)" by (simp_all only: two)
    define m where "m = nat \<lfloor>?a / power_int 2 ?e\<rfloor>"
    have scaled: "0 < ?a / power_int 2 ?e" using a by simp
    from int have fl: "of_int \<lfloor>?a / power_int 2 ?e\<rfloor> = ?a / power_int 2 ?e" by (rule isInteger_floor)
    with scaled have "0 < \<lfloor>?a / power_int 2 ?e\<rfloor>" by (metis of_int_0_less_iff)
    then have m: "(of_nat m :: rat) = ?a / power_int 2 ?e" using fl by (simp add: m_def)
    then have eq: "?a = of_nat m * power_int 2 ?e" by simp
    have "ilog 2 ?a + 1 \<le> ?e + 53" by (simp add: ulpExponent_def)
    then have "power_int (2::rat) (ilog 2 ?a + 1) \<le> power_int 2 (?e + 53)"
      by (intro power_int_increasing) simp_all
    with hi have "?a < power_int 2 (?e + 53)" by simp
    also have "\<dots> = power_int 2 ?e * 2 ^ 53" by (simp add: power_int_add)
    finally have "?a / power_int 2 ?e < 2 ^ 53" by (simp add: field_simps)
    then have "(of_nat m :: rat) < of_nat (2 ^ 53)" by (simp add: m)
    then have m53: "m < 2 ^ 53" by (simp only: of_nat_less_iff)
    have "power_int (2::rat) (ilog 2 ?a) < power_int 2 1024" using lo small by simp
    then have "ilog 2 ?a < 1024" by (intro power_int_exp_less [of 2]) simp_all
    then have "?e \<le> 971" by (simp add: ulpExponent_def)
    with m53 eq ulpExponent_lower [of ?a] show ?thesis by blast
  qed
next
  assume "\<exists>m e. m < 2 ^ 53 \<and> - 1074 \<le> e \<and> e \<le> 971 \<and> \<bar>q\<bar> = of_nat m * power_int 2 e"
  then obtain m :: nat and e0 :: int where m: "m < 2 ^ 53" and e0: "- 1074 \<le> e0" "e0 \<le> 971"
    and eq: "\<bar>q\<bar> = of_nat m * power_int 2 e0" by blast
  show "isDouble q"
  proof (cases "q = 0")
    case True
    then show ?thesis by (simp add: isDouble_def)
  next
    case False
    let ?a = "\<bar>q\<bar>"
    let ?e = "ulpExponent ?a"
    from False have a: "0 < ?a" by simp
    have two: "(of_nat 2 :: rat) = 2" by simp
    from ilog_bounds [OF _ a, of 2] have lo: "power_int 2 (ilog 2 ?a) \<le> ?a" by (simp_all only: two)
    from m have "(of_nat m :: rat) < of_nat (2 ^ 53)" by (simp only: of_nat_less_iff)
    then have mr: "(of_nat m :: rat) < 2 ^ 53" by simp
    then have "?a < 2 ^ 53 * power_int 2 e0" unfolding eq by (simp add: mult_strict_right_mono)
    also have "\<dots> = power_int 2 (e0 + 53)" by (simp add: power_int_add)
    finally have below: "?a < power_int 2 (e0 + 53)" .
    have "power_int (2::rat) (e0 + 53) \<le> power_int 2 1024"
      using e0(2) by (intro power_int_increasing) simp_all
    with below have small: "?a < 2 ^ 1024" by simp
    from lo below have "power_int (2::rat) (ilog 2 ?a) < power_int 2 (e0 + 53)" by simp
    then have "ilog 2 ?a < e0 + 53" by (intro power_int_exp_less [of 2]) simp_all
    with e0(1) have le: "?e \<le> e0" by (simp add: ulpExponent_def)
    have "?a / power_int 2 ?e = of_nat m * (power_int 2 e0 / power_int 2 ?e)" by (simp add: eq)
    also have "power_int (2::rat) e0 / power_int 2 ?e = power_int 2 (e0 - ?e)"
      by (simp add: power_int_diff)
    also have "\<dots> = 2 ^ nat (e0 - ?e)" using le by (simp add: power_int_def)
    also have "of_nat m * 2 ^ nat (e0 - ?e) = (of_int (int m * 2 ^ nat (e0 - ?e)) :: rat)" by simp
    finally have "isInteger (?a / power_int 2 ?e)" by (simp only: isInteger_of_int)
    with small False show ?thesis by (simp add: isDouble_def)
  qed
qed

section \<open>The shortest digits\<close>

text \<open>
  Rounding to a double is monotone, the two candidates of \<open>k\<close> digits are the decimals of \<open>k\<close>
  digits next to \<open>x\<close>, and so the search finds digits of the least length that denote \<open>x\<close>:
  \<open>shortestDigits x\<close> satisfies the condition of \<open>Number::toString\<close> on \<open>n\<close>, \<open>k\<close> and \<open>s\<close>
  (\<open>shortestDigits_denotes\<close>, \<open>shortestDigits_minimal\<close>).
\<close>

lemma roundToDouble_pos:
  "0 < v \<Longrightarrow> roundToDouble v = (if 2 ^ 1024 \<le> roundValue v then PosInf else Fin (roundValue v))"
  by (simp add: roundToDouble_def roundValue_def Let_def)

lemma roundHalfEven_range: "\<lfloor>r\<rfloor> \<le> roundHalfEven r \<and> roundHalfEven r \<le> \<lfloor>r\<rfloor> + 1"
  by (simp add: roundHalfEven_def Let_def)

lemma roundHalfEven_mono:
  assumes "r \<le> r'"
  shows "roundHalfEven r \<le> roundHalfEven r'"
proof (cases "\<lfloor>r\<rfloor> = \<lfloor>r'\<rfloor>")
  case False
  from assms have "\<lfloor>r\<rfloor> \<le> \<lfloor>r'\<rfloor>" by (rule floor_mono)
  with False have "\<lfloor>r\<rfloor> + 1 \<le> \<lfloor>r'\<rfloor>" by simp
  with roundHalfEven_range [of r] roundHalfEven_range [of r'] show ?thesis by linarith
next
  case True
  from assms have "r - of_int \<lfloor>r\<rfloor> \<le> r' - of_int \<lfloor>r\<rfloor>" by simp
  then show ?thesis
    unfolding roundHalfEven_def Let_def True [symmetric] by auto
qed

lemma roundHalfEven_of_int: "roundHalfEven (of_int m) = m"
  by (simp add: roundHalfEven_def Let_def)

lemma roundHalfEven_ge: "of_int m \<le> r \<Longrightarrow> m \<le> roundHalfEven r"
  using roundHalfEven_mono [of "of_int m" r] by (simp add: roundHalfEven_of_int)

lemma roundHalfEven_le: "r \<le> of_int m \<Longrightarrow> roundHalfEven r \<le> m"
  using roundHalfEven_mono [of r "of_int m"] by (simp add: roundHalfEven_of_int)

lemma ilog2_bounds:
  assumes "0 < a"
  shows "power_int 2 (ilog 2 a) \<le> a" and "a < power_int 2 (ilog 2 a + 1)"
proof -
  have two: "(of_nat 2 :: rat) = 2" by simp
  from ilog_bounds [OF _ assms, of 2] show "power_int 2 (ilog 2 a) \<le> a" and "a < power_int 2 (ilog 2 a + 1)"
    by (simp_all only: two)
qed

lemma ilog10_bounds:
  assumes "0 < a"
  shows "power_int 10 (ilog 10 a) \<le> a" and "a < power_int 10 (ilog 10 a + 1)"
proof -
  have ten: "(of_nat 10 :: rat) = 10" by simp
  from ilog_bounds [OF _ assms, of 10] show "power_int 10 (ilog 10 a) \<le> a" and "a < power_int 10 (ilog 10 a + 1)"
    by (simp_all only: ten)
qed

lemma ulpExponent_mono:
  assumes "0 < a" and "a \<le> b"
  shows "ulpExponent a \<le> ulpExponent b"
proof -
  from assms have b: "0 < b" by simp
  have "power_int 2 (ilog 2 a) \<le> a" using assms(1) by (rule ilog2_bounds)
  also note assms(2)
  also have "b < power_int 2 (ilog 2 b + 1)" using b by (rule ilog2_bounds)
  finally have "ilog 2 a < ilog 2 b + 1" by (intro power_int_exp_less [of 2]) simp_all
  then show ?thesis by (simp add: ulpExponent_def)
qed

lemma scaled_below:
  assumes "0 < a"
  shows "a / power_int 2 (ulpExponent a) < 2 ^ 53"
proof -
  let ?e = "ulpExponent a"
  have "ilog 2 a + 1 \<le> ?e + 53" by (simp add: ulpExponent_def)
  then have "power_int (2::rat) (ilog 2 a + 1) \<le> power_int 2 (?e + 53)"
    by (intro power_int_increasing) simp_all
  with ilog2_bounds(2) [OF assms] have "a < power_int 2 (?e + 53)" by simp
  also have "\<dots> = power_int 2 ?e * 2 ^ 53" by (simp add: power_int_add)
  finally show ?thesis by (simp add: field_simps)
qed

lemma scaled_above:
  assumes "0 < a" and "- 1074 < ulpExponent a"
  shows "2 ^ 52 \<le> a / power_int 2 (ulpExponent a)"
proof -
  let ?e = "ulpExponent a"
  from assms(2) have e: "?e = ilog 2 a - 52" by (simp add: ulpExponent_def max_def split: if_splits)
  have "power_int (2::rat) (?e + 52) = power_int 2 (ilog 2 a)" by (simp add: e)
  also have "\<dots> \<le> a" using assms(1) by (rule ilog2_bounds)
  finally have "power_int 2 ?e * 2 ^ 52 \<le> a" by (simp add: power_int_add)
  then show ?thesis by (simp add: field_simps)
qed

lemma roundValue_mono:
  assumes "0 < a" and "a \<le> b"
  shows "roundValue a \<le> roundValue b"
proof -
  from assms have b: "0 < b" by simp
  let ?ea = "ulpExponent a" and ?eb = "ulpExponent b"
  have le: "?ea \<le> ?eb" using assms by (rule ulpExponent_mono)
  show ?thesis
  proof (cases "?ea = ?eb")
    case True
    have "a / power_int 2 ?eb \<le> b / power_int 2 ?eb"
      using assms(2) by (simp add: divide_right_mono)
    then have "roundHalfEven (a / power_int 2 ?eb) \<le> roundHalfEven (b / power_int 2 ?eb)"
      by (rule roundHalfEven_mono)
    then have "(of_int (roundHalfEven (a / power_int 2 ?eb)) :: rat) \<le> of_int (roundHalfEven (b / power_int 2 ?eb))"
      by simp
    then show ?thesis
      unfolding roundValue_def True by (simp add: mult_right_mono)
  next
    case False
    with le have lt: "?ea + 1 \<le> ?eb" by simp
    with ulpExponent_lower [of a] have "- 1074 < ?eb" by simp
    with b have "2 ^ 52 \<le> b / power_int 2 ?eb" by (rule scaled_above)
    then have "of_int (2 ^ 52) \<le> b / power_int 2 ?eb" by simp
    then have "2 ^ 52 \<le> roundHalfEven (b / power_int 2 ?eb)" by (rule roundHalfEven_ge)
    then have "(of_int (2 ^ 52) :: rat) \<le> of_int (roundHalfEven (b / power_int 2 ?eb))"
      by (simp only: of_int_le_iff)
    then have "(2 ^ 52 :: rat) * power_int 2 ?eb \<le> roundValue b"
      unfolding roundValue_def by (simp add: mult_right_mono)
    then have up: "power_int (2::rat) (?eb + 52) \<le> roundValue b" by (simp add: power_int_add mult.commute)
    have "a / power_int 2 ?ea \<le> of_int (2 ^ 53)" using scaled_below [OF assms(1)] by simp
    then have "roundHalfEven (a / power_int 2 ?ea) \<le> 2 ^ 53" by (rule roundHalfEven_le)
    then have "(of_int (roundHalfEven (a / power_int 2 ?ea)) :: rat) \<le> of_int (2 ^ 53)"
      by (simp only: of_int_le_iff)
    then have "roundValue a \<le> 2 ^ 53 * power_int 2 ?ea"
      unfolding roundValue_def by (simp add: mult_right_mono)
    then have "roundValue a \<le> power_int 2 (?ea + 53)" by (simp add: power_int_add mult.commute)
    also have "\<dots> \<le> power_int 2 (?eb + 52)"
      using lt by (intro power_int_increasing) simp_all
    also note up
    finally show ?thesis .
  qed
qed

lemma roundValue_double: "isDouble x \<Longrightarrow> 0 < x \<Longrightarrow> roundValue x = x \<and> x < 2 ^ 1024"
  using roundToDouble_fixed [of x] by (simp add: roundToDouble_pos split: if_splits)

lemma rounds_between:
  assumes x: "isDouble x" "0 < x" and v: "0 < v" "roundToDouble v = Fin x"
    and w: "(v \<le> w \<and> w \<le> x) \<or> (x \<le> w \<and> w \<le> v)"
  shows "roundToDouble w = Fin x"
proof -
  from roundValue_double [OF x] have rx: "roundValue x = x" and small: "x < 2 ^ 1024" by simp_all
  from v have rv: "roundValue v = x" by (simp add: roundToDouble_pos split: if_splits)
  from w x(2) v(1) have wpos: "0 < w" by auto
  from w have "roundValue w = x"
  proof
    assume "v \<le> w \<and> w \<le> x"
    with roundValue_mono [OF v(1), of w] roundValue_mono [OF wpos, of x] rv rx show ?thesis by simp
  next
    assume "x \<le> w \<and> w \<le> v"
    with roundValue_mono [OF x(2), of w] roundValue_mono [OF wpos, of v] rv rx show ?thesis by simp
  qed
  with small wpos show ?thesis by (simp add: roundToDouble_pos)
qed

lemma pow10_pos: "0 < power_int (10::rat) i"
  by (simp add: zero_less_power_int)

lemma pow10_ge0: "0 \<le> power_int (10::rat) i"
  by (rule less_imp_le) (rule pow10_pos)

lemma pow10_mono: "i \<le> j \<Longrightarrow> power_int (10::rat) i \<le> power_int 10 j"
  by (intro power_int_increasing) simp_all

lemma pow10_join: "i + j = m \<Longrightarrow> power_int (10::rat) i * power_int 10 j = power_int 10 m"
  by (simp add: power_int_add [symmetric])

lemma pow10_of_nat: "(of_nat (10 ^ k) :: rat) = power_int 10 (int k)"
  by simp

lemma digitsValue_lower:
  assumes "1 \<le> k" and "10 ^ (k - 1) \<le> s"
  shows "power_int 10 (n - 1) \<le> digitsValue (s, n, k)"
proof -
  from assms(2) have "(of_nat (10 ^ (k - 1)) :: rat) \<le> of_nat s" by (simp only: of_nat_le_iff)
  then have "power_int (10::rat) (int (k - 1)) \<le> of_nat s" by (simp only: pow10_of_nat)
  then have "power_int (10::rat) (int (k - 1)) * power_int 10 (n - int k) \<le> of_nat s * power_int 10 (n - int k)"
    by (rule mult_right_mono) (rule pow10_ge0)
  moreover have "int (k - 1) + (n - int k) = n - 1" using assms(1) by simp
  then have "power_int (10::rat) (int (k - 1)) * power_int 10 (n - int k) = power_int 10 (n - 1)"
    by (rule pow10_join)
  ultimately show ?thesis
    unfolding digitsValue_def by (simp only: prod.case)
qed

lemma digitsValue_upper:
  assumes "s < 10 ^ k"
  shows "digitsValue (s, n, k) < power_int 10 n"
proof -
  from assms have "(of_nat s :: rat) < of_nat (10 ^ k)" by (simp only: of_nat_less_iff)
  then have "(of_nat s :: rat) < power_int 10 (int k)" by (simp only: pow10_of_nat)
  then have "of_nat s * power_int 10 (n - int k) < power_int (10::rat) (int k) * power_int 10 (n - int k)"
    by (rule mult_strict_right_mono) (rule pow10_pos)
  moreover have "int k + (n - int k) = n" by simp
  then have "power_int (10::rat) (int k) * power_int 10 (n - int k) = power_int 10 n"
    by (rule pow10_join)
  ultimately show ?thesis
    unfolding digitsValue_def by (simp only: prod.case)
qed

lemma scaled_value: "x / power_int (10::rat) i * power_int 10 i = x"
  using pow10_pos [of i] by simp

lemma scaled_range:
  assumes "0 < x" and "1 \<le> k"
  shows "of_nat (10 ^ (k - 1)) \<le> x / power_int 10 (ilog 10 x + 1 - int k)"
    and "x / power_int 10 (ilog 10 x + 1 - int k) < of_nat (10 ^ k)"
proof -
  let ?n = "ilog 10 x + 1"
  let ?P = "power_int (10::rat) (?n - int k)"
  have "int (k - 1) + (?n - int k) = ilog 10 x" using assms(2) by simp
  then have "power_int (10::rat) (int (k - 1)) * ?P = power_int 10 (ilog 10 x)"
    by (rule pow10_join)
  also have "\<dots> \<le> x" using assms(1) by (rule ilog10_bounds)
  finally have "power_int (10::rat) (int (k - 1)) * ?P / ?P \<le> x / ?P"
    by (rule divide_right_mono) (rule pow10_ge0)
  then have "power_int (10::rat) (int (k - 1)) \<le> x / ?P"
    using pow10_pos [of "?n - int k"] by simp
  then show "of_nat (10 ^ (k - 1)) \<le> x / ?P" by (simp only: pow10_of_nat)
  have "int k + (?n - int k) = ?n" by simp
  then have "power_int (10::rat) (int k) * ?P = power_int 10 ?n"
    by (rule pow10_join)
  moreover have "x < power_int 10 ?n" using assms(1) by (rule ilog10_bounds)
  ultimately have "x < power_int (10::rat) (int k) * ?P" by simp
  then have "x / ?P < power_int (10::rat) (int k) * ?P / ?P"
    by (rule divide_strict_right_mono) (rule pow10_pos)
  then have "x / ?P < power_int (10::rat) (int k)"
    using pow10_pos [of "?n - int k"] by simp
  then show "x / ?P < of_nat (10 ^ k)" by (simp only: pow10_of_nat)
qed

lemma candidate_below:
  assumes x: "0 < x" and k: "1 \<le> k" and s: "10 ^ (k - 1) \<le> s" "s < 10 ^ k"
    and le: "digitsValue (s, n, k) \<le> x"
  shows "digitsValue (s, n, k) \<le> digitsValue (nat \<lfloor>x / power_int 10 (ilog 10 x + 1 - int k)\<rfloor>, ilog 10 x + 1, k)"
    and "10 ^ (k - 1) \<le> nat \<lfloor>x / power_int 10 (ilog 10 x + 1 - int k)\<rfloor>"
    and "nat \<lfloor>x / power_int 10 (ilog 10 x + 1 - int k)\<rfloor> < 10 ^ k"
    and "digitsValue (nat \<lfloor>x / power_int 10 (ilog 10 x + 1 - int k)\<rfloor>, ilog 10 x + 1, k) \<le> x"
proof -
  let ?n = "ilog 10 x + 1"
  let ?P = "power_int (10::rat) (?n - int k)"
  let ?r = "x / ?P"
  let ?lo = "nat \<lfloor>?r\<rfloor>"
  note range = scaled_range [OF x k]
  from range(1) have "of_int (int (10 ^ (k - 1))) \<le> ?r" by simp
  then have f1: "int (10 ^ (k - 1)) \<le> \<lfloor>?r\<rfloor>" by (simp only: le_floor_iff)
  then have rpos: "0 \<le> \<lfloor>?r\<rfloor>" by linarith
  from f1 show lo1: "10 ^ (k - 1) \<le> ?lo" by linarith
  from range(2) have "?r < of_int (int (10 ^ k))" by simp
  then have "\<lfloor>?r\<rfloor> < int (10 ^ k)" by (simp only: floor_less_iff)
  with rpos show "?lo < 10 ^ k" by (simp only: nat_less_iff)
  from rpos have lo: "(of_nat ?lo :: rat) = of_int \<lfloor>?r\<rfloor>" by simp
  have "of_int \<lfloor>?r\<rfloor> * ?P \<le> ?r * ?P"
    by (rule mult_right_mono) (rule of_int_floor_le, rule pow10_ge0)
  then have "of_int \<lfloor>?r\<rfloor> * ?P \<le> x" by (simp only: scaled_value)
  then show below: "digitsValue (?lo, ?n, k) \<le> x"
    unfolding digitsValue_def by (simp only: prod.case lo)
  show "digitsValue (s, n, k) \<le> digitsValue (?lo, ?n, k)"
  proof -
    consider "?n < n" | "n = ?n" | "n < ?n" by linarith
    then show ?thesis
    proof cases
      case 1
      then have "power_int (10::rat) ?n \<le> power_int 10 (n - 1)" by (intro pow10_mono) simp
      also have "\<dots> \<le> digitsValue (s, n, k)" using k s(1) by (rule digitsValue_lower)
      finally have "x < digitsValue (s, n, k)" using ilog10_bounds(2) [OF x] by simp
      with le show ?thesis by simp
    next
      case 2
      from le have "of_nat s * ?P \<le> x" by (simp add: digitsValue_def 2)
      then have "of_nat s * ?P / ?P \<le> x / ?P"
        by (rule divide_right_mono) (rule pow10_ge0)
      then have "of_nat s \<le> ?r" using pow10_pos [of "?n - int k"] by simp
      then have "of_int (int s) \<le> ?r" by simp
      then have "int s \<le> \<lfloor>?r\<rfloor>" by (simp only: le_floor_iff)
      then have "(of_int (int s) :: rat) \<le> of_int \<lfloor>?r\<rfloor>" by (simp only: of_int_le_iff)
      then have "(of_nat s :: rat) \<le> of_nat ?lo" by (simp add: lo)
      then have "of_nat s * ?P \<le> of_nat ?lo * ?P"
        by (rule mult_right_mono) (rule pow10_ge0)
      then show ?thesis
        unfolding digitsValue_def 2 by (simp only: prod.case)
    next
      case 3
      have "digitsValue (s, n, k) < power_int 10 n" using s(2) by (rule digitsValue_upper)
      also have "\<dots> \<le> power_int 10 (?n - 1)" using 3 by (intro pow10_mono) simp
      also have "\<dots> \<le> digitsValue (?lo, ?n, k)" using k lo1 by (rule digitsValue_lower)
      finally show ?thesis by simp
    qed
  qed
qed

lemma candidate_above:
  assumes x: "0 < x" and k: "1 \<le> k" and s: "10 ^ (k - 1) \<le> s" "s < 10 ^ k"
    and ge: "x \<le> digitsValue (s, n, k)"
  shows "digitsValue (nat \<lceil>x / power_int 10 (ilog 10 x + 1 - int k)\<rceil>, ilog 10 x + 1, k) \<le> digitsValue (s, n, k)"
    and "10 ^ (k - 1) \<le> nat \<lceil>x / power_int 10 (ilog 10 x + 1 - int k)\<rceil>"
    and "nat \<lceil>x / power_int 10 (ilog 10 x + 1 - int k)\<rceil> \<le> 10 ^ k"
    and "x \<le> digitsValue (nat \<lceil>x / power_int 10 (ilog 10 x + 1 - int k)\<rceil>, ilog 10 x + 1, k)"
proof -
  let ?n = "ilog 10 x + 1"
  let ?P = "power_int (10::rat) (?n - int k)"
  let ?r = "x / ?P"
  let ?hi = "nat \<lceil>?r\<rceil>"
  note range = scaled_range [OF x k]
  from range(1) have "of_int (int (10 ^ (k - 1))) \<le> ?r" by simp
  also have "?r \<le> of_int \<lceil>?r\<rceil>" by (rule le_of_int_ceiling)
  finally have c1: "int (10 ^ (k - 1)) \<le> \<lceil>?r\<rceil>" by (simp only: of_int_le_iff)
  then show "10 ^ (k - 1) \<le> ?hi" by linarith
  from range(2) have "?r \<le> of_int (int (10 ^ k))" by simp
  then have "\<lceil>?r\<rceil> \<le> int (10 ^ k)" by (simp only: ceiling_le_iff)
  then show hi2: "?hi \<le> 10 ^ k" by linarith
  from c1 have "0 \<le> \<lceil>?r\<rceil>" by linarith
  then have hi: "(of_nat ?hi :: rat) = of_int \<lceil>?r\<rceil>" by simp
  have "?r * ?P \<le> of_int \<lceil>?r\<rceil> * ?P"
    by (rule mult_right_mono) (rule le_of_int_ceiling, rule pow10_ge0)
  then have "x \<le> of_int \<lceil>?r\<rceil> * ?P" by (simp only: scaled_value)
  then show "x \<le> digitsValue (?hi, ?n, k)"
    unfolding digitsValue_def by (simp only: prod.case hi)
  show "digitsValue (?hi, ?n, k) \<le> digitsValue (s, n, k)"
  proof -
    consider "n < ?n" | "n = ?n" | "?n < n" by linarith
    then show ?thesis
    proof cases
      case 1
      have "digitsValue (s, n, k) < power_int 10 n" using s(2) by (rule digitsValue_upper)
      also have "\<dots> \<le> power_int 10 (?n - 1)" using 1 by (intro pow10_mono) simp
      also have "\<dots> \<le> x" using ilog10_bounds(1) [OF x] by simp
      finally show ?thesis using ge by simp
    next
      case 2
      from ge have "x \<le> of_nat s * ?P" by (simp add: digitsValue_def 2)
      then have "x / ?P \<le> of_nat s * ?P / ?P"
        by (rule divide_right_mono) (rule pow10_ge0)
      then have "?r \<le> of_nat s" using pow10_pos [of "?n - int k"] by simp
      then have "?r \<le> of_int (int s)" by simp
      then have "\<lceil>?r\<rceil> \<le> int s" by (simp only: ceiling_le_iff)
      then have "(of_int \<lceil>?r\<rceil> :: rat) \<le> of_int (int s)" by (simp only: of_int_le_iff)
      then have "(of_nat ?hi :: rat) \<le> of_nat s" by (simp add: hi)
      then have "of_nat ?hi * ?P \<le> of_nat s * ?P"
        by (rule mult_right_mono) (rule pow10_ge0)
      then show ?thesis
        unfolding digitsValue_def 2 by (simp only: prod.case)
    next
      case 3
      from hi2 have "(of_nat ?hi :: rat) \<le> of_nat (10 ^ k)" by (simp only: of_nat_le_iff)
      then have "(of_nat ?hi :: rat) \<le> power_int 10 (int k)" by (simp only: pow10_of_nat)
      then have "of_nat ?hi * ?P \<le> power_int 10 (int k) * ?P"
        by (rule mult_right_mono) (rule pow10_ge0)
      moreover have "int k + (?n - int k) = ?n" by simp
      then have "power_int (10::rat) (int k) * ?P = power_int 10 ?n" by (rule pow10_join)
      ultimately have "digitsValue (?hi, ?n, k) \<le> power_int 10 ?n"
        unfolding digitsValue_def by (simp only: prod.case)
      also have "\<dots> \<le> power_int 10 (n - 1)" using 3 by (intro pow10_mono) simp
      also have "\<dots> \<le> digitsValue (s, n, k)" using k s(1) by (rule digitsValue_lower)
      finally show ?thesis .
    qed
  qed
qed

lemma floor_candidate:
  assumes x: "0 < x" and k: "1 \<le> k"
  shows "10 ^ (k - 1) \<le> nat \<lfloor>x / power_int 10 (ilog 10 x + 1 - int k)\<rfloor>"
    and "nat \<lfloor>x / power_int 10 (ilog 10 x + 1 - int k)\<rfloor> < 10 ^ k"
proof -
  let ?r = "x / power_int (10::rat) (ilog 10 x + 1 - int k)"
  note range = scaled_range [OF x k]
  from range(1) have "of_int (int (10 ^ (k - 1))) \<le> ?r" by simp
  then have f1: "int (10 ^ (k - 1)) \<le> \<lfloor>?r\<rfloor>" by (simp only: le_floor_iff)
  then have rpos: "0 \<le> \<lfloor>?r\<rfloor>" by linarith
  from f1 show "10 ^ (k - 1) \<le> nat \<lfloor>?r\<rfloor>" by linarith
  from range(2) have "?r < of_int (int (10 ^ k))" by simp
  then have "\<lfloor>?r\<rfloor> < int (10 ^ k)" by (simp only: floor_less_iff)
  with rpos show "nat \<lfloor>?r\<rfloor> < 10 ^ k" by (simp only: nat_less_iff)
qed

lemma candidates_complete:
  assumes x: "isDouble x" "0 < x" and d: "denotes x (s, n, k)"
  shows "\<exists>t \<in> set (candidates x k). denotes x t"
proof -
  let ?n = "ilog 10 x + 1"
  let ?r = "x / power_int (10::rat) (?n - int k)"
  let ?v = "digitsValue (s, n, k)"
  define lo where "lo = nat \<lfloor>?r\<rfloor>"
  define hi where "hi = nat \<lceil>?r\<rceil>"
  from d have k: "1 \<le> k" and s: "10 ^ (k - 1) \<le> s" "s < 10 ^ k" and rv: "roundToDouble ?v = Fin x"
    by (simp_all add: denotes_def)
  have "(0::nat) < 10 ^ (k - 1)" by simp
  then have "0 < s" using s(1) by (rule less_le_trans)
  then have vpos: "0 < ?v" by (simp add: digitsValue_def zero_less_power_int)
  have cand: "candidates x k
      = (lo, ?n, k) # (if hi = lo then [] else if hi = 10 ^ k then [(10 ^ (k - 1), ?n + 1, k)] else [(hi, ?n, k)])"
    by (simp add: candidates_def Let_def lo_def hi_def)
  note lo_range = floor_candidate [OF x(2) k, folded lo_def]
  show ?thesis
  proof (cases "?v \<le> x")
    case True
    note below = candidate_below [OF x(2) k s True, folded lo_def]
    from below(1,4) have "(?v \<le> digitsValue (lo, ?n, k) \<and> digitsValue (lo, ?n, k) \<le> x)
        \<or> (x \<le> digitsValue (lo, ?n, k) \<and> digitsValue (lo, ?n, k) \<le> ?v)" by simp
    with x vpos rv have "roundToDouble (digitsValue (lo, ?n, k)) = Fin x" by (rule rounds_between)
    with k lo_range have "denotes x (lo, ?n, k)" by (simp add: denotes_def)
    then show ?thesis unfolding cand by simp
  next
    case False
    then have ge: "x \<le> ?v" by simp
    note above = candidate_above [OF x(2) k s ge, folded hi_def]
    from above(1,4) have "(?v \<le> digitsValue (hi, ?n, k) \<and> digitsValue (hi, ?n, k) \<le> x)
        \<or> (x \<le> digitsValue (hi, ?n, k) \<and> digitsValue (hi, ?n, k) \<le> ?v)" by simp
    with x vpos rv have r: "roundToDouble (digitsValue (hi, ?n, k)) = Fin x" by (rule rounds_between)
    consider "hi = lo" | "hi \<noteq> lo" "hi = 10 ^ k" | "hi \<noteq> lo" "hi \<noteq> 10 ^ k" by blast
    then show ?thesis
    proof cases
      case 1
      with r k lo_range have "denotes x (lo, ?n, k)" by (simp add: denotes_def)
      then show ?thesis unfolding cand by simp
    next
      case 2
      have "int (k - 1) + (?n + 1 - int k) = ?n" using k by simp
      then have "power_int (10::rat) (int (k - 1)) * power_int 10 (?n + 1 - int k) = power_int 10 ?n"
        by (rule pow10_join)
      moreover have "int k + (?n - int k) = ?n" by simp
      then have "power_int (10::rat) (int k) * power_int 10 (?n - int k) = power_int 10 ?n"
        by (rule pow10_join)
      ultimately have "digitsValue (10 ^ (k - 1), ?n + 1, k) = digitsValue (10 ^ k, ?n, k)"
        unfolding digitsValue_def prod.case pow10_of_nat by simp
      with r 2(2) have "roundToDouble (digitsValue (10 ^ (k - 1), ?n + 1, k)) = Fin x" by simp
      moreover have "(10::nat) ^ (k - 1) < 10 ^ k" using k by (simp add: power_strict_increasing_iff)
      ultimately have "denotes x (10 ^ (k - 1), ?n + 1, k)" using k by (simp add: denotes_def)
      then show ?thesis unfolding cand using 2 by simp
    next
      case 3
      from above(3) 3(2) have "hi < 10 ^ k" by simp
      with r k above(2) have "denotes x (hi, ?n, k)" by (simp add: denotes_def)
      then show ?thesis unfolding cand using 3 by simp
    qed
  qed
qed

lemma candidates_length: "t \<in> set (candidates x k) \<Longrightarrow> snd (snd t) = k"
  by (auto simp: candidates_def Let_def split: if_splits)

lemma shortest_minimal:
  assumes x: "isDouble x" "0 < x"
    and none: "\<And>s n k. denotes x (s, n, k) \<Longrightarrow> k0 \<le> k"
    and ex: "snd (snd (exactDigits x)) = k0 + fuel"
    and d: "denotes x (s, n, k)"
  shows "snd (snd (shortest fuel x k0)) \<le> k"
  using none ex
proof (induction fuel arbitrary: k0)
  case 0
  from 0(2) have "snd (snd (shortest 0 x k0)) = k0" by simp
  with 0(1) [OF d] show ?case by simp
next
  case (Suc fuel)
  show ?case
  proof (cases "filter (denotes x) (candidates x k0)")
    case Nil
    have next_k: "Suc k0 \<le> k'" if d': "denotes x (s', n', k')" for s' n' k'
    proof -
      from Suc.prems(1) [OF d'] have "k0 \<le> k'" .
      moreover have "k' \<noteq> k0"
      proof
        assume "k' = k0"
        with candidates_complete [OF x d'] obtain t where "t \<in> set (candidates x k0)" "denotes x t" by blast
        then have "t \<in> set (filter (denotes x) (candidates x k0))" by simp
        with Nil show False by simp
      qed
      ultimately show ?thesis by simp
    qed
    from Suc.prems(2) have "snd (snd (exactDigits x)) = Suc k0 + fuel" by simp
    with next_k have "snd (snd (shortest fuel x (Suc k0))) \<le> k" by (rule Suc.IH)
    with Nil show ?thesis by simp
  next
    case (Cons t ts)
    have "closest x t ts \<in> set (t # ts)" by (rule closest_member)
    also have "set (t # ts) = set (filter (denotes x) (candidates x k0))" by (simp only: Cons)
    finally have "closest x t ts \<in> set (candidates x k0)" by simp
    then have "snd (snd (closest x t ts)) = k0" by (rule candidates_length)
    with Suc.prems(1) [OF d] Cons show ?thesis by simp
  qed
qed

lemma shortestDigits_minimal:
  assumes "isDouble x" and "0 < x" and "denotes x (s, n, k)"
  shows "snd (snd (shortestDigits x)) \<le> k"
proof -
  obtain s0 n0 k0 where e: "exactDigits x = (s0, n0, k0)" by (cases "exactDigits x") auto
  from exactDigits_denotes [OF assms(1,2)] have "1 \<le> k0" by (simp add: e denotes_def)
  then have "snd (snd (exactDigits x)) = 1 + (k0 - 1)" by (simp add: e)
  moreover have "1 \<le> k'" if "denotes x (s', n', k')" for s' n' k'
    using that by (simp add: denotes_def)
  ultimately have "snd (snd (shortest (k0 - 1) x 1)) \<le> k"
    using assms by (intro shortest_minimal) simp_all
  then show ?thesis by (simp add: shortestDigits_def e)
qed

section \<open>The CSV round trip\<close>

lemma numberPattern_not_nullish: "numberPattern t \<Longrightarrow> t \<noteq> [] \<and> t \<noteq> ''null'' \<and> t \<noteq> ''NULL''"
  by (auto simp: numberPattern_def dropMinus_def isDigit_def)

lemma inferValue_keptAsString: "keptAsString toNumber s \<Longrightarrow> inferValue toNumber s = Str s"
  by (auto simp: keptAsString_def inferValue_def Let_def)

lemma keptAsString_iff: "keptAsString toNumber s = (inferValue toNumber s = Str s)"
  by (auto simp: keptAsString_def inferValue_def Let_def)

lemma inferValue_readsBackAs:
  "readsBackAs toNumber numToString q \<Longrightarrow> inferValue toNumber (numToString q) = Num (Fin q)"
  using numberPattern_not_nullish [of "trim (numToString q)"]
  by (auto simp: readsBackAs_def inferValue_def Let_def)

lemma roundTripCell_infer:
  "roundTripCell toNumber numToString v \<Longrightarrow> inferValue toNumber (rawField numToString v) = v"
  by (induction toNumber numToString v rule: roundTripCell.induct)
     (simp_all add: rawField_def inferValue_empty inferValue_keptAsString inferValue_readsBackAs)

lemma plainText_iff:
  "plainText s = (\<not> (CHR '','' \<in> set s \<or> DQUOTE \<in> set s \<or> LF \<in> set s \<or> CR \<in> set s))"
  by (auto simp: plainText_def specialChar_def list_ex_iff)

lemma roundTripCell_escaped:
  "roundTripCell toNumber numToString v \<Longrightarrow>
     fieldText (if v = Null \<or> v = Undefined then []
                else escapeCSVValue numToString v (typeofNumber v \<and> \<not> Number_isNaN v))
       (rawField numToString v)"
proof (induction toNumber numToString v rule: roundTripCell.induct)
  case (1 toNumber numToString)
  then show ?case by (simp add: rawField_def fieldText_def plainText_def)
next
  case (2 toNumber numToString q)
  then show ?case
    by (simp add: rawField_def fieldText_def escapeCSVValue_def Number_isNaN_def readsBackAs_def)
next
  case (3 toNumber numToString s)
  then show ?case
    by (simp add: rawField_def fieldText_def escapeCSVValue_def Number_isNaN_def plainText_iff)
qed simp_all

lemma roundTripCell_fieldText:
  "roundTripCell toNumber numToString (obj_get row c) \<Longrightarrow>
     fieldText (cellText numToString row c) (rawField numToString (obj_get row c))"
  using roundTripCell_escaped [of toNumber numToString "obj_get row c"]
  by (simp add: cellText_def Let_def)

lemma roundTripCell_nonblank:
  assumes "roundTripCell toNumber numToString v" and "v \<noteq> Null"
  shows "trim (rawField numToString v) \<noteq> []"
proof
  assume "trim (rawField numToString v) = []"
  then have "inferValue toNumber (rawField numToString v) = Null" by (rule inferValue_blank)
  with roundTripCell_infer [OF assms(1)] assms(2) show False by simp
qed

lemma set_join: "x \<in> set xs \<Longrightarrow> set x \<subseteq> set (join sep xs)"
  by (induction sep xs rule: join.induct) auto

lemma toCSV_default:
  "rows \<noteq> [] \<Longrightarrow>
     toCSV numToString (DataFrame_new rows) None
       = join ''\<newline>'' (map (join '','')
           (Object_keys (hd rows) # map (\<lambda>row. map (cellText numToString row) (Object_keys (hd rows))) rows))"
  by (simp add: toCSV_def optionOr_def getRows_def getColumnNames_def data_DataFrame_new
      columns_DataFrame_new headerLine_verbatim Let_def comp_def)

lemma round_trip_rows:
  assumes ne: "rows \<noteq> []"
    and first: "wfObject (hd rows)"
    and names: "\<forall>c \<in> set (Object_keys (hd rows)). plainName c"
    and header: "\<exists>c \<in> set (Object_keys (hd rows)). trim c \<noteq> []"
    and cells: "\<forall>row \<in> set rows. \<forall>c \<in> set (Object_keys (hd rows)). roundTripCell toNumber numToString (obj_get row c)"
    and filled: "(\<forall>row \<in> set rows. \<exists>c \<in> set (Object_keys (hd rows)). obj_get row c \<noteq> Null) \<or> length rows = 1"
  shows "fromCSV toNumber (toCSV numToString (DataFrame_new rows) None) None
     = DataFrame_new (map (\<lambda>row. map (\<lambda>c. (c, obj_get row c)) (Object_keys (hd rows))) rows)"
proof -
  let ?cols = "Object_keys (hd rows)"
  let ?raw = "\<lambda>row c. rawField numToString (obj_get row c)"
  let ?ess = "?cols # map (\<lambda>row. map (cellText numToString row) ?cols) rows"
  let ?frows = "map (\<lambda>row. map (?raw row) ?cols) rows"
  let ?csv = "toCSV numToString (DataFrame_new rows) None"
  have csv: "?csv = join ''\<newline>'' (map (join '','') ?ess)"
    by (rule toCSV_default [OF ne])
  from header have cols_ne: "?cols \<noteq> []" by auto
  have head_rel: "list_all2 fieldText ?cols ?cols"
    using names by (simp add: list_all2_same fieldText_def plainName_def)
  have row_rel: "list_all2 fieldText (map (cellText numToString row) ?cols) (map (?raw row) ?cols)"
    if "row \<in> set rows" for row
  proof -
    have "fieldText (cellText numToString row c) (?raw row c)" if "c \<in> set ?cols" for c
      using cells \<open>row \<in> set rows\<close> that by (intro roundTripCell_fieldText) blast
    then show ?thesis
      by (simp add: list_all2_map1 list_all2_map2 list_all2_same)
  qed
  have rel: "list_all2 (list_all2 fieldText) ?ess (?cols # ?frows)"
    using head_rel row_rel by (simp add: list_all2_map1 list_all2_map2 list_all2_same)
  have "list_all (\<lambda>es. es \<noteq> []) ?ess"
    using cols_ne by (simp add: list_all_iff)
  with rel have parse: "parseCSVRows ?csv '','' = ?cols # ?frows"
    unfolding csv by (intro parseCSVRows_table) simp_all
  have keep_head: "nonEmptyRow ?cols"
    using header by (simp add: nonEmptyRow_def list_ex_iff)
  have nonblank: "trim ?csv \<noteq> []"
  proof -
    from header obtain c where c: "c \<in> set ?cols" and t: "trim c \<noteq> []" by blast
    from t obtain ch where ch: "ch \<in> set c" and ws: "\<not> isWhiteSpace ch"
      by (auto simp: trim_eq_Nil)
    from c have "set c \<subseteq> set (join '','' ?cols)" by (rule set_join)
    moreover have "set (join '','' ?cols) \<subseteq> set ?csv"
      unfolding csv by (rule set_join) simp
    ultimately have "ch \<in> set ?csv" using ch by blast
    with ws show ?thesis by (auto simp: trim_eq_Nil)
  qed
  from first have ordered: "distinct ?cols" "keyOrdered ?cols" by (simp_all add: wfObject_def)
  show ?thesis
  proof (cases "\<forall>row \<in> set rows. \<exists>c \<in> set ?cols. obj_get row c \<noteq> Null")
    case True
    have keep_row: "nonEmptyRow (map (?raw row) ?cols)" if "row \<in> set rows" for row
    proof -
      from True that obtain c where c: "c \<in> set ?cols" and v: "obj_get row c \<noteq> Null" by blast
      from cells that c have "roundTripCell toNumber numToString (obj_get row c)" by blast
      then have "trim (?raw row c) \<noteq> []" using v by (rule roundTripCell_nonblank)
      with c show ?thesis by (auto simp: nonEmptyRow_def list_ex_iff)
    qed
    have filt: "filter nonEmptyRow (parseCSVRows ?csv '','') = ?cols # ?frows"
      unfolding parse using keep_head keep_row by (simp add: filter_id_conv)
    from ne have "?frows \<noteq> []" by simp
    with nonblank filt have "fromCSV toNumber ?csv None = DataFrame_new (map (buildRow toNumber ?cols) ?frows)"
      by (rule fromCSV_default_rows)
    moreover have "buildRow toNumber ?cols (map (?raw row) ?cols) = map (\<lambda>c. (c, obj_get row c)) ?cols"
      if "row \<in> set rows" for row
    proof -
      from ordered have "buildRow toNumber ?cols (map (?raw row) ?cols)
          = map (\<lambda>c. (c, inferValue toNumber (?raw row c))) ?cols"
        by (rule buildRow_ordered)
      also have "\<dots> = map (\<lambda>c. (c, obj_get row c)) ?cols"
        using cells that by (simp add: roundTripCell_infer)
      finally show ?thesis .
    qed
    then have "map (buildRow toNumber ?cols) ?frows = map (\<lambda>row. map (\<lambda>c. (c, obj_get row c)) ?cols) rows"
      by (simp add: map_eq_conv)
    ultimately show ?thesis by (simp only:)
  next
    case False
    with filled have "length rows = 1" by blast
    then obtain row where rows: "rows = [row]" by (cases rows) auto
    with False have nulls: "obj_get row c = Null" if "c \<in> set ?cols" for c
      using that by auto
    then have "map (?raw row) ?cols = map (\<lambda>c. []) ?cols"
      by (simp add: rawField_def)
    then have frows: "?frows = [map (\<lambda>c. []) ?cols]"
      by (simp add: rows)
    have drop_row: "\<not> nonEmptyRow (map (\<lambda>c. []) ?cols)"
      by (simp add: nonEmptyRow_def list_ex_iff trim_def)
    have "filter nonEmptyRow (parseCSVRows ?csv '','') = [?cols]"
      unfolding parse frows using keep_head drop_row by simp
    with nonblank have "fromCSV toNumber ?csv None = DataFrame_new [emptyRow ?cols]"
      by (rule fromCSV_headers_only)
    also have "emptyRow ?cols = map (\<lambda>c. (c, Null)) ?cols"
      using ordered by (rule emptyRow_ordered)
    also have "\<dots> = map (\<lambda>c. (c, obj_get row c)) ?cols"
      using nulls by simp
    finally show ?thesis by (simp add: rows)
  qed
qed

lemma toCSV_no_rows: "toCSV numToString (DataFrame_new []) None = []"
  by (simp add: toCSV_def optionOr_def getRows_def getColumnNames_def DataFrame_new_def)

lemma tableCell_round_trip:
  "tableCell v \<Longrightarrow> roundTripCell StringToNumber Number_toString v"
  by (induction v rule: tableCell.induct) (simp_all add: number_reads_back)

text \<open>
  C1 (amended). Let \<open>T\<close> be the frame of rows that are objects, with the default options on both
  sides and the conversions of the language between numbers and text. If no column name of \<open>T\<close>
  contains a comma, a double quote, a line feed or a carriage return or is \<open>__proto__\<close>; if, when
  \<open>T\<close> has rows, some column name is not blank; if every cell of \<open>T\<close> (every row, every column of
  \<open>T\<close>) is \<open>null\<close>, a finite number, or a string that the type inference keeps as a string; and if
  every row has a cell that is not \<open>null\<close>, or \<open>T\<close> has one row only:
  then \<open>fromCSV(toCSV(T))\<close> has the column names of \<open>T\<close>, as many rows as \<open>T\<close>, and at every
  row and column the cell of \<open>T\<close>, value and type; and it is \<open>T\<close> itself when every row of \<open>T\<close> has
  exactly the columns of \<open>T\<close>. What happens for a column name with a comma or a quote is left open.
\<close>

theorem C1_round_trip_amended:
  assumes table: "T = DataFrame_new rows"
    and objects: "\<forall>row \<in> set rows. wfObject row"
    and names: "\<forall>c \<in> set (columns T). plainName c"
    and header: "rows = [] \<or> (\<exists>c \<in> set (columns T). trim c \<noteq> [])"
    and cells: "\<forall>row \<in> set rows. \<forall>c \<in> set (columns T). tableCell (obj_get row c)"
    and filled: "(\<forall>row \<in> set rows. \<exists>c \<in> set (columns T). obj_get row c \<noteq> Null) \<or> length rows = 1"
  shows "columns (fromCSV StringToNumber (toCSV Number_toString T None) None) = columns T
    \<and> length (data (fromCSV StringToNumber (toCSV Number_toString T None) None)) = length (data T)
    \<and> (\<forall>i < length (data T). \<forall>c \<in> set (columns T).
          obj_get (data (fromCSV StringToNumber (toCSV Number_toString T None) None) ! i) c = obj_get (data T ! i) c)
    \<and> ((\<forall>row \<in> set rows. Object_keys row = columns T)
          \<longrightarrow> fromCSV StringToNumber (toCSV Number_toString T None) None = T)"
proof (cases "rows = []")
  case True
  show ?thesis
    unfolding table True toCSV_no_rows fromCSV_empty_text by (simp add: DataFrame_new_def)
next
  case False
  let ?cols = "Object_keys (hd rows)"
  let ?built = "map (\<lambda>row. map (\<lambda>c. (c, obj_get row c)) ?cols) rows"
  from False have cols: "columns T = ?cols" by (simp add: table columns_DataFrame_new)
  from False objects have first: "wfObject (hd rows)" by simp
  from cells have reads: "\<forall>row \<in> set rows. \<forall>c \<in> set (columns T).
      roundTripCell StringToNumber Number_toString (obj_get row c)"
    using tableCell_round_trip by blast
  have rt: "fromCSV StringToNumber (toCSV Number_toString T None) None = DataFrame_new ?built"
    unfolding table
    using False first names header reads filled
    by (intro round_trip_rows) (simp_all add: cols [symmetric])
  from False have built_ne: "?built \<noteq> []" by simp
  have c1: "columns (DataFrame_new ?built) = columns T"
  proof -
    have "columns (DataFrame_new ?built) = Object_keys (hd ?built)"
      by (rule columns_DataFrame_new [OF built_ne])
    also have "hd ?built = map (\<lambda>c. (c, obj_get (hd rows) c)) ?cols"
      using False by (simp add: hd_map)
    also have "Object_keys \<dots> = ?cols"
      by (simp add: Object_keys_def comp_def)
    finally show ?thesis by (simp add: cols)
  qed
  have c2: "length (data (DataFrame_new ?built)) = length (data T)"
    by (simp add: data_DataFrame_new table)
  have c3: "obj_get (data (DataFrame_new ?built) ! i) c = obj_get (data T ! i) c"
    if "i < length (data T)" and "c \<in> set (columns T)" for i c
    using that by (simp add: data_DataFrame_new table obj_get_tabulate cols [symmetric])
  have c4: "DataFrame_new ?built = T" if rect: "\<forall>row \<in> set rows. Object_keys row = columns T"
  proof -
    have "map (\<lambda>c. (c, obj_get row c)) ?cols = row" if "row \<in> set rows" for row
    proof -
      from objects that have "distinct (map fst row)" by (simp add: wfObject_def Object_keys_def)
      then have "map (\<lambda>c. (c, obj_get row c)) (map fst row) = row" by (rule tabulate_own)
      moreover from rect that have "map fst row = ?cols" by (simp add: cols Object_keys_def)
      ultimately show ?thesis by simp
    qed
    then have "?built = rows" by (simp add: map_idI)
    then show ?thesis by (simp add: table)
  qed
  show ?thesis
    unfolding rt using c1 c2 c3 c4 by blast
qed

text \<open>
  The theorem at a frame of two rows, with a name that needs quotes, numbers with and without a
  fraction, a negative number and a \<open>null\<close> cell.
\<close>

theorem C1_round_trip_witness:
  "fromCSV StringToNumber
     (toCSV Number_toString
        (DataFrame_new [[(''name'', Str ''Alice, Jr.''), (''age'', Num (Fin 30)), (''score'', Num (Fin (1 / 2)))],
                        [(''name'', Str ''Bob''), (''age'', Null), (''score'', Num (Fin (- 1250)))]]) None) None
   = DataFrame_new [[(''name'', Str ''Alice, Jr.''), (''age'', Num (Fin 30)), (''score'', Num (Fin (1 / 2)))],
                    [(''name'', Str ''Bob''), (''age'', Null), (''score'', Num (Fin (- 1250)))]]"
proof -
  let ?rows = "[[(''name'', Str ''Alice, Jr.''), (''age'', Num (Fin 30)), (''score'', Num (Fin (1 / 2)))],
                [(''name'', Str ''Bob''), (''age'', Null), (''score'', Num (Fin (- 1250)))]]"
  let ?T = "DataFrame_new ?rows"
  have cols: "columns ?T = [''name'', ''age'', ''score'']"
    by (simp add: DataFrame_new_def Object_keys_def)
  have idx: "\<not> isArrayIndex ''name''" "\<not> isArrayIndex ''age''" "\<not> isArrayIndex ''score''"
    by (simp_all add: isArrayIndex_def isDigit_def)
  have objects: "\<forall>row \<in> set ?rows. wfObject row"
    by (simp add: wfObject_def Object_keys_def idx)
  have names: "\<forall>c \<in> set (columns ?T). plainName c"
    unfolding cols by (simp add: plainName_def plainText_def specialChar_def)
  have header: "?rows = [] \<or> (\<exists>c \<in> set (columns ?T). trim c \<noteq> [])"
    unfolding cols by (simp add: trim_def isWhiteSpace_def)
  have alice: "keptAsString StringToNumber ''Alice, Jr.''"
    by (simp add: keptAsString_def trim_def isWhiteSpace_def numberPattern_def dropMinus_def isDigit_def)
  have bob: "keptAsString StringToNumber ''Bob''"
    by (simp add: keptAsString_def trim_def isWhiteSpace_def numberPattern_def dropMinus_def isDigit_def)
  have thirty: "isDouble 30"
    unfolding isDouble_iff by (intro exI [of _ 30] exI [of _ 0]) simp
  have half: "isDouble (1 / 2)"
    unfolding isDouble_iff by (intro exI [of _ 1] exI [of _ "- 1"]) (simp add: power_int_minus_divide)
  have debt: "isDouble (- 1250)"
    unfolding isDouble_iff by (intro exI [of _ 1250] exI [of _ 0]) simp
  have cells: "\<forall>row \<in> set ?rows. \<forall>c \<in> set (columns ?T). tableCell (obj_get row c)"
    unfolding cols by (simp add: obj_get_def alice bob thirty half debt)
  have filled: "(\<forall>row \<in> set ?rows. \<exists>c \<in> set (columns ?T). obj_get row c \<noteq> Null) \<or> length ?rows = 1"
    unfolding cols by (simp add: obj_get_def)
  have rect: "\<forall>row \<in> set ?rows. Object_keys row = columns ?T"
    unfolding cols by (simp add: Object_keys_def)
  from C1_round_trip_amended [OF refl objects names header cells filled] rect
  show ?thesis by blast
qed

text \<open>
  Two more ways the round trip changes a table whose cells are \<open>null\<close>, numbers or strings: a row
  of \<open>null\<close> cells is written as an empty line and skipped by the reader, and a blank header line
  is skipped too, so that the first data row is read as the header.
\<close>

lemma round_trip_drops_null_row:
  "toCSV numToString (DataFrame_new [[(''a'', Str ''x'')], [(''a'', Null)]]) None = ''a\<newline>x\<newline>''
   \<and> data (fromCSV toNumber ''a\<newline>x\<newline>'' None) = [[(''a'', Str ''x'')]]"
proof
  show "toCSV numToString (DataFrame_new [[(''a'', Str ''x'')], [(''a'', Null)]]) None = ''a\<newline>x\<newline>''"
    by (simp add: toCSV_def optionOr_def getRows_def getColumnNames_def DataFrame_new_def
        Object_keys_def headerLine_def cellText_def obj_get_def escapeCSVValue_def Number_isNaN_def)
  have rows: "filter nonEmptyRow (parseCSVRows ''a\<newline>x\<newline>'' '','') = [''a''] # [[''x'']]"
    by (simp add: parseCSVRows_def nextChar_def nonEmptyRow_def trim_def isWhiteSpace_def)
  have "trim ''a\<newline>x\<newline>'' \<noteq> []"
    by (simp add: trim_def isWhiteSpace_def)
  then have "fromCSV toNumber ''a\<newline>x\<newline>'' None = DataFrame_new (map (buildRow toNumber [''a'']) [[''x'']])"
    using rows by (rule fromCSV_default_rows) simp
  moreover have "buildRow toNumber [''a''] [''x''] = [(''a'', Str ''x'')]"
    by (simp add: buildRow_def padValues_def fieldAt_def obj_set_def Object_keys_def isArrayIndex_def
        isDigit_def inferValue_def trim_def isWhiteSpace_def numberPattern_def dropMinus_def)
  ultimately show "data (fromCSV toNumber ''a\<newline>x\<newline>'' None) = [[(''a'', Str ''x'')]]"
    by (simp add: data_DataFrame_new)
qed

lemma round_trip_blank_header:
  "toCSV numToString (DataFrame_new [[('' '', Str ''x'')]]) None = '' \<newline>x''
   \<and> fromCSV toNumber '' \<newline>x'' None = DataFrame_new [[(''x'', Null)]]"
proof
  show "toCSV numToString (DataFrame_new [[('' '', Str ''x'')]]) None = '' \<newline>x''"
    by (simp add: toCSV_def optionOr_def getRows_def getColumnNames_def DataFrame_new_def
        Object_keys_def headerLine_def cellText_def obj_get_def escapeCSVValue_def Number_isNaN_def)
  have rows: "filter nonEmptyRow (parseCSVRows '' \<newline>x'' '','') = [[''x'']]"
    by (simp add: parseCSVRows_def nextChar_def nonEmptyRow_def trim_def isWhiteSpace_def)
  have "trim '' \<newline>x'' \<noteq> []"
    by (simp add: trim_def isWhiteSpace_def)
  then have "fromCSV toNumber '' \<newline>x'' None = DataFrame_new [emptyRow [''x'']]"
    using rows by (rule fromCSV_headers_only)
  moreover have "emptyRow [''x''] = [(''x'', Null)]"
    by (simp add: emptyRow_def obj_set_def Object_keys_def isArrayIndex_def isDigit_def)
  ultimately show "fromCSV toNumber '' \<newline>x'' None = DataFrame_new [[(''x'', Null)]]"
    by simp
qed

text \<open>
  C1 as stated fails: the frame of the one row \<open>{a: 'null'}\<close> has only a string cell and a
  column name without control characters, and its cell reads back as \<open>null\<close>, not as the string
  (with the conversions of the language, which this cell never reaches).
\<close>

theorem C1_round_trip_counterexample:
  "obj_get (data (DataFrame_new [[(''a'', Str ''null'')]]) ! 0) ''a'' = Str ''null''
   \<and> obj_get (data (fromCSV StringToNumber (toCSV Number_toString (DataFrame_new [[(''a'', Str ''null'')]]) None) None) ! 0) ''a'' = Null"
proof
  show "obj_get (data (DataFrame_new [[(''a'', Str ''null'')]]) ! 0) ''a'' = Str ''null''"
    by (simp add: DataFrame_new_def obj_get_def)
  have csv: "toCSV Number_toString (DataFrame_new [[(''a'', Str ''null'')]]) None = ''a\<newline>null''"
    by (simp add: toCSV_def optionOr_def getRows_def getColumnNames_def DataFrame_new_def
        Object_keys_def headerLine_def cellText_def obj_get_def escapeCSVValue_def Number_isNaN_def)
  have rows: "filter nonEmptyRow (parseCSVRows ''a\<newline>null'' '','') = [''a''] # [[''null'']]"
    by (simp add: parseCSVRows_def nextChar_def nonEmptyRow_def trim_def isWhiteSpace_def)
  have "trim ''a\<newline>null'' \<noteq> []"
    by (simp add: trim_def isWhiteSpace_def)
  then have "fromCSV StringToNumber ''a\<newline>null'' None = DataFrame_new (map (buildRow StringToNumber [''a'']) [[''null'']])"
    using rows by (rule fromCSV_default_rows) simp
  moreover have "buildRow StringToNumber [''a''] [''null''] = [(''a'', Null)]"
    by (simp add: buildRow_def padValues_def fieldAt_def obj_set_def Object_keys_def isArrayIndex_def
        isDigit_def inferValue_def trim_def isWhiteSpace_def)
  ultimately show "obj_get (data (fromCSV StringToNumber (toCSV Number_toString (DataFrame_new [[(''a'', Str ''null'')]]) None) None) ! 0) ''a'' = Null"
    unfolding csv by (simp add: data_DataFrame_new obj_get_def)
qed

end
